theory Spec2Isabelle
  imports Main "HOL-Library.Word"
begin

section \<open>Python values, exceptions and outcomes\<close>

text \<open>
  The exceptions the modelled code can raise.  An operation of the chain state returns
  the state it leaves behind together with an outcome: the returned value, the
  exception that left the call, or \<open>OutOfFuel\<close> when the bound on nested calls and
  loop rounds (the model's stand-in for the interpreter's recursion limit) is used up.
\<close>

datatype exn =
    AttributeError | TypeError | ValueError | KeyError | IndexError | OverflowError
  | InvalidSignature | UnsupportedAlgorithm

datatype 'a outcome = Returned 'a | Raised exn | OutOfFuel

text \<open>
  JSON values as \<open>to_dict\<close> builds them.  Amounts and timestamps are Python floats in
  the source; they are modelled as exact integers (base units, whole seconds).
\<close>

datatype json =
    JNull
  | JStr string
  | JNum int
  | JList "json list"
  | JDict "(string \<times> json) list"

section \<open>Canonical hashing (utils/crypto.py)\<close>

text \<open>
  The two library calls under \<open>hash_data\<close> are parameters of the model:
  \<open>sha256_hex s\<close> is \<open>hashlib.sha256(s.encode('utf-8')).hexdigest()\<close> and
  \<open>json_dumps d\<close> is \<open>json.dumps(d, sort_keys=True)\<close>.
\<close>

record env =
  sha256_hex :: "string \<Rightarrow> string"
  json_dumps :: "json \<Rightarrow> string"

datatype hashable = HStr string | HDict "(string \<times> json) list"

definition hash_data :: "env \<Rightarrow> hashable \<Rightarrow> string" where
  "hash_data E d =
     (case d of
        HDict kv \<Rightarrow> sha256_hex E (json_dumps E (JDict kv))
      | HStr s \<Rightarrow> sha256_hex E s)"

definition startswith :: "string \<Rightarrow> string \<Rightarrow> bool" where
  "startswith s p = (take (length p) s = p)"

text \<open>\<open>'0' * d\<close>: the empty string when \<open>d\<close> is not positive.\<close>

definition zeros :: "int \<Rightarrow> string" where
  "zeros d = replicate (nat d) CHR ''0''"

section \<open>Transactions\<close>

text \<open>
  The repository has two classes named \<open>Transaction\<close>.  \<open>BlockTx\<close> is the dataclass of
  blockchain/block.py (the one blockchain.py and gossip.py import): it has \<open>to_dict\<close>
  and no \<open>calculate_hash\<close>, no \<open>fee\<close>.  \<open>WalletTx\<close> is the dataclass of
  blockchain/wallet.py.  Both flow through the same duck-typed code, so one datatype
  holds both and a missing attribute is an \<open>AttributeError\<close>.
\<close>

datatype transaction =
    BlockTx (sender: string) (recipient: string) (amount: int)
            (signature: "string option") (tx_timestamp: int)
  | WalletTx (sender: string) (recipient: string) (amount: int) (tx_timestamp: int)
             (tx_nonce: int) (fee: int) (data: "(string \<times> json) list option")
             (signature: "string option")

definition opt_str :: "string option \<Rightarrow> json" where
  "opt_str s = (case s of None \<Rightarrow> JNull | Some v \<Rightarrow> JStr v)"

fun to_dict :: "transaction \<Rightarrow> (string \<times> json) list" where
  "to_dict (BlockTx s r a sg ts) =
     [(''sender'', JStr s), (''recipient'', JStr r), (''amount'', JNum a),
      (''signature'', opt_str sg), (''timestamp'', JNum ts)]"
| "to_dict (WalletTx s r a ts n f d sg) =
     [(''sender'', JStr s), (''recipient'', JStr r), (''amount'', JNum a),
      (''timestamp'', JNum ts), (''nonce'', JNum n), (''fee'', JNum f)]
     @ (case d of None \<Rightarrow> [] | Some kv \<Rightarrow> [(''data'', JDict kv)])
     @ (case sg of None \<Rightarrow> [] | Some v \<Rightarrow> [(''signature'', JStr v)])"

text \<open>\<open>tx_dict.pop('signature', None)\<close> on a dict.\<close>

definition dict_pop :: "string \<Rightarrow> (string \<times> json) list \<Rightarrow> (string \<times> json) list" where
  "dict_pop k kv = filter (\<lambda>(k', _). k' \<noteq> k) kv"

text \<open>\<open>transaction.calculate_hash()\<close>: only the wallet's class defines it.\<close>

fun tx_calculate_hash :: "env \<Rightarrow> transaction \<Rightarrow> exn + string" where
  "tx_calculate_hash E (BlockTx s r a sg ts) = Inl AttributeError"
| "tx_calculate_hash E (WalletTx s r a ts n f d sg) =
     Inr (sha256_hex E (json_dumps E
            (JDict (dict_pop ''signature'' (to_dict (WalletTx s r a ts n f d sg))))))"

text \<open>\<open>tx.fee\<close>: only the wallet's class has the field.\<close>

fun tx_fee :: "transaction \<Rightarrow> exn + int" where
  "tx_fee (BlockTx s r a sg ts) = Inl AttributeError"
| "tx_fee (WalletTx s r a ts n f d sg) = Inr f"

text \<open>\<open>isinstance(tx, Transaction)\<close> with the \<open>Transaction\<close> of block.py.\<close>

fun isinstance_Transaction :: "transaction \<Rightarrow> bool" where
  "isinstance_Transaction (BlockTx s r a sg ts) = True"
| "isinstance_Transaction (WalletTx s r a ts n f d sg) = False"

section \<open>Blocks (blockchain/block.py)\<close>

text \<open>
  \<open>Block.__init__\<close> keeps the list it is given (\<open>self.transactions = transactions\<close>),
  and \<open>Blockchain.add_transaction\<close> appends to the mempool list in place, so a block
  built over \<open>bc.unconfirmed_transactions\<close> changes with the mempool.  The mempool is the
  only list of transactions that the operations of the chain state mutate, so a block
  records which list object its \<open>transactions\<close> attribute is: \<open>MempoolList g\<close>, the list the chain state
  holds as its mempool in generation \<open>g\<close> (\<open>mine_block\<close> rebinds
  \<open>self.unconfirmed_transactions\<close> to a new list, which starts the next generation), or
  \<open>OwnList\<close>, any other list.  \<open>transactions\<close> is what that list holds.  (The chain list
  is appended to in place as well; it holds blocks, and a block whose transactions are
  blocks fails the \<open>isinstance\<close> check of \<open>is_valid\<close>, so no accepted block above the
  genesis index holds it.)
\<close>

datatype list_obj = OwnList | MempoolList nat

record block =
  version :: string
  timestamp :: int
  previous_hash :: string
  miner :: string
  transactions_obj :: list_obj
  transactions :: "transaction list"
  nonce :: int
  difficulty :: int
  merkle_root :: string
  hash :: string

text \<open>
  One round of \<open>Block._calculate_merkle_root\<close> on an even-length list:
  \<open>[hash_data(leaves[i] + leaves[i + 1]) for i in range(0, len(leaves), 2)]\<close>.
  The list has even length when the comprehension runs (\<open>pad_odd\<close> below), so the
  single-element equation is never reached.
\<close>

fun pair_hashes :: "env \<Rightarrow> string list \<Rightarrow> string list" where
  "pair_hashes E (a # b # rest) = hash_data E (HStr (a @ b)) # pair_hashes E rest"
| "pair_hashes E [a] = []"
| "pair_hashes E [] = []"

text \<open>\<open>if len(xs) % 2 == 1: xs.append(xs[-1])\<close>.\<close>

definition pad_odd :: "'a list \<Rightarrow> 'a list" where
  "pad_odd xs = (if length xs mod 2 = 1 then xs @ [last xs] else xs)"

lemma length_pair_hashes: "length (pair_hashes E xs) = length xs div 2"
  by (induction E xs rule: pair_hashes.induct) simp_all

lemma length_pad_odd: "length (pad_odd xs) = 2 * ((length xs + 1) div 2)"
  unfolding pad_odd_def by (simp; presburger)

lemma even_length_pad_odd: "even (length (pad_odd xs))"
  by (simp add: length_pad_odd)

function merkle_loop :: "env \<Rightarrow> string list \<Rightarrow> string list" where
  "merkle_loop E leaves =
     (if length leaves > 1 then merkle_loop E (pair_hashes E (pad_odd leaves)) else leaves)"
  by pat_completeness auto
termination
  by (relation "measure (\<lambda>(E, leaves). length leaves)")
     (auto simp: length_pair_hashes length_pad_odd)

declare merkle_loop.simps [simp del]

definition calculate_merkle_root :: "env \<Rightarrow> transaction list \<Rightarrow> string" where
  "calculate_merkle_root E txs =
     (if txs = [] then hash_data E (HStr ''empty_block'')
      else hd (merkle_loop E (map (\<lambda>tx. hash_data E (HDict (to_dict tx))) txs)))"

definition block_dict :: "block \<Rightarrow> (string \<times> json) list" where
  "block_dict b =
     [(''version'', JStr (version b)),
      (''timestamp'', JNum (timestamp b)),
      (''previous_hash'', JStr (previous_hash b)),
      (''miner'', JStr (miner b)),
      (''transactions'', JList (map (\<lambda>tx. JDict (to_dict tx)) (transactions b))),
      (''nonce'', JNum (nonce b)),
      (''difficulty'', JNum (difficulty b)),
      (''merkle_root'', JStr (merkle_root b))]"

definition calculate_hash :: "env \<Rightarrow> block \<Rightarrow> string" where
  "calculate_hash E b = hash_data E (HDict (block_dict b))"

text \<open>
  \<open>Block.__init__\<close>.  \<open>now\<close> is the value of \<open>time.time()\<close>; the constructor takes it
  when \<open>timestamp\<close> is \<open>None\<close> or falsy (\<open>timestamp or time.time()\<close>), so also for 0.
  The argument \<open>transactions\<close> is the list object \<open>obj\<close> holding \<open>txs\<close>.
\<close>

definition Block_init ::
  "env \<Rightarrow> int \<Rightarrow> string \<Rightarrow> list_obj \<Rightarrow> transaction list \<Rightarrow> string \<Rightarrow> int option \<Rightarrow>
     int \<Rightarrow> int \<Rightarrow> block" where
  "Block_init E now m obj txs prev ts n d =
     (let b = \<lparr>version = ''1.0'',
               timestamp = (case ts of None \<Rightarrow> now | Some t \<Rightarrow> if t = 0 then now else t),
               previous_hash = prev,
               miner = m,
               transactions_obj = obj,
               transactions = txs,
               nonce = n,
               difficulty = d,
               merkle_root = calculate_merkle_root E txs,
               hash = ''''\<rparr>
      in b\<lparr>hash := calculate_hash E b\<rparr>)"

definition is_valid :: "env \<Rightarrow> block \<Rightarrow> bool" where
  "is_valid E b =
     (if hash b \<noteq> calculate_hash E b then False
      else if \<not> startswith (hash b) (zeros (difficulty b)) then False
      else if \<not> list_all isinstance_Transaction (transactions b) then False
      else True)"

section \<open>Proof of work (consensus/proof\_of\_work.py)\<close>

record ProofOfWork =
  pow_difficulty :: int
  target :: string

definition ProofOfWork_init :: "int \<Rightarrow> ProofOfWork" where
  "ProofOfWork_init d = \<lparr>pow_difficulty = d, target = zeros d\<rparr>"

definition validate :: "env \<Rightarrow> ProofOfWork \<Rightarrow> block \<Rightarrow> bool" where
  "validate E p b =
     (let block_hash = calculate_hash E b in
      if block_hash \<noteq> hash b then False
      else if \<not> startswith block_hash (target p) then False
      else True)"

section \<open>The chain state (blockchain/blockchain.py)\<close>

text \<open>
  \<open>pending_blocks\<close> is a Python dict: an association list in insertion order, with
  one entry per key.  \<open>unconfirmed_obj\<close> is the generation of the mempool list: the list
  object \<open>self.unconfirmed_transactions\<close> is \<open>MempoolList (unconfirmed_obj bc)\<close>.
\<close>

record blockchain =
  bc_difficulty :: int
  unconfirmed_obj :: nat
  unconfirmed_transactions :: "transaction list"
  chain :: "block list"
  orphan_blocks :: "(string \<times> block) list"
  pending_blocks :: "(string \<times> block) list"
  known_transactions :: "string set"
  pow :: ProofOfWork

definition genesis_tx :: transaction where
  "genesis_tx = BlockTx ''0'' ''Genesis'' 0 (Some ''0'') 0"

definition create_genesis_block :: "env \<Rightarrow> int \<Rightarrow> blockchain \<Rightarrow> blockchain" where
  "create_genesis_block E now bc =
     bc\<lparr>chain := chain bc @
          [Block_init E now ''Genesis'' OwnList [genesis_tx] (replicate 64 CHR ''0'')
             (Some 0) 0 (bc_difficulty bc)]\<rparr>"

definition Blockchain_init :: "env \<Rightarrow> int \<Rightarrow> int \<Rightarrow> blockchain" where
  "Blockchain_init E now d =
     create_genesis_block E now
       \<lparr>bc_difficulty = d,
        unconfirmed_obj = 0,
        unconfirmed_transactions = [],
        chain = [],
        orphan_blocks = [],
        pending_blocks = [],
        known_transactions = {},
        pow = ProofOfWork_init d\<rparr>"

text \<open>
  The loop \<open>for i in range(1, len(chain))\<close> of \<open>verify_chain\<close> and \<open>_validate_chain\<close>,
  with \<open>previous = chain[i-1]\<close> carried along and \<open>current = chain[i]\<close> the head of
  what is left.
\<close>

fun check_from :: "env \<Rightarrow> ProofOfWork \<Rightarrow> block \<Rightarrow> block list \<Rightarrow> bool" where
  "check_from E p previous [] = True"
| "check_from E p previous (current # rest) =
     (if \<not> is_valid E current then False
      else if previous_hash current \<noteq> hash previous then False
      else if \<not> validate E p current then False
      else check_from E p current rest)"

definition verify_chain :: "env \<Rightarrow> blockchain \<Rightarrow> bool" where
  "verify_chain E bc =
     (case chain bc of [] \<Rightarrow> True | g # rest \<Rightarrow> check_from E (pow bc) g rest)"

text \<open>\<open>_validate_chain\<close>; \<open>self.chain[0]\<close> raises \<open>IndexError\<close> on an empty own chain.\<close>

definition validate_chain :: "env \<Rightarrow> blockchain \<Rightarrow> block list \<Rightarrow> exn + bool" where
  "validate_chain E bc c =
     (case c of
        [] \<Rightarrow> Inr False
      | g # rest \<Rightarrow>
          (case chain bc of
             [] \<Rightarrow> Inl IndexError
           | own_g # _ \<Rightarrow>
               if hash g \<noteq> hash own_g then Inr False
               else Inr (check_from E (pow bc) g rest)))"

definition replace_chain :: "env \<Rightarrow> blockchain \<Rightarrow> block list \<Rightarrow> blockchain \<times> bool outcome" where
  "replace_chain E bc new_chain =
     (case validate_chain E bc new_chain of
        Inl e \<Rightarrow> (bc, Raised e)
      | Inr ok \<Rightarrow>
          if \<not> ok then (bc, Returned False)
          else if length new_chain \<le> length (chain bc) then (bc, Returned False)
          else (bc\<lparr>chain := new_chain\<rparr>, Returned True))"

text \<open>\<open>self.chain[-1]\<close>.\<close>

definition last_block :: "blockchain \<Rightarrow> exn + block" where
  "last_block bc = (if chain bc = [] then Inl IndexError else Inr (last (chain bc)))"

text \<open>\<open>d[k] = v\<close>: an existing key keeps its place, a new key goes to the end.\<close>

fun dict_set :: "'k \<Rightarrow> 'v \<Rightarrow> ('k \<times> 'v) list \<Rightarrow> ('k \<times> 'v) list" where
  "dict_set k v [] = [(k, v)]"
| "dict_set k v ((k', v') # rest) =
     (if k' = k then (k, v) # rest else (k', v') # dict_set k v rest)"

text \<open>\<open>del d[k]\<close>: \<open>KeyError\<close> when the key is absent.\<close>

definition dict_del :: "'k \<Rightarrow> ('k \<times> 'v) list \<Rightarrow> exn + ('k \<times> 'v) list" where
  "dict_del k kv =
     (if k \<in> fst ` set kv then Inr (filter (\<lambda>p. fst p \<noteq> k) kv) else Inl KeyError)"

definition validate_transaction :: "transaction \<Rightarrow> bool" where
  "validate_transaction tx =
     (if sender tx = [] \<or> recipient tx = [] then False
      else if amount tx \<le> 0 then False
      else if signature tx = None \<or> signature tx = Some [] then False
      else True)"

text \<open>
  \<open>self.unconfirmed_transactions.append(transaction)\<close> appends to the list object
  itself: \<open>mempool_append\<close> is what a block sees of it, namely the new element when
  its \<open>transactions\<close> attribute is that object.  The blocks of the chain state are those
  of \<open>chain\<close>, \<open>orphan_blocks\<close> and \<open>pending_blocks\<close>.
\<close>

definition mempool_append :: "nat \<Rightarrow> transaction \<Rightarrow> block \<Rightarrow> block" where
  "mempool_append g tx b =
     (if transactions_obj b = MempoolList g then b\<lparr>transactions := transactions b @ [tx]\<rparr>
      else b)"

definition add_transaction ::
  "env \<Rightarrow> blockchain \<Rightarrow> transaction \<Rightarrow> blockchain \<times> bool outcome" where
  "add_transaction E bc tx =
     (case tx_calculate_hash E tx of
        Inl e \<Rightarrow> (bc, Raised e)
      | Inr tx_hash \<Rightarrow>
          if tx_hash \<in> known_transactions bc then (bc, Returned False)
          else if \<not> validate_transaction tx then (bc, Returned False)
          else
            (let g = unconfirmed_obj bc in
             (bc\<lparr>unconfirmed_transactions := unconfirmed_transactions bc @ [tx],
                 chain := map (mempool_append g tx) (chain bc),
                 orphan_blocks := map (\<lambda>p. (fst p, mempool_append g tx (snd p))) (orphan_blocks bc),
                 pending_blocks :=
                   map (\<lambda>p. (fst p, mempool_append g tx (snd p))) (pending_blocks bc),
                 known_transactions := insert tx_hash (known_transactions bc)\<rparr>,
              Returned True)))"

text \<open>
  \<open>add_block\<close> and \<open>_process_pending_blocks\<close> call each other.  The first argument
  after the environment bounds the nesting of calls and the rounds of the \<open>while\<close>
  loop; \<open>pending_scan\<close> is the \<open>for\<close> loop over the snapshot
  \<open>list(self.pending_blocks.items())\<close>, returning \<open>added_blocks\<close>.  Each function
  returns the state it leaves, also when an exception or the bound ends it.
\<close>

function add_block :: "env \<Rightarrow> nat \<Rightarrow> blockchain \<Rightarrow> block \<Rightarrow> blockchain \<times> bool outcome"
  and process_pending_blocks :: "env \<Rightarrow> nat \<Rightarrow> blockchain \<Rightarrow> blockchain \<times> unit outcome"
  and pending_scan ::
    "env \<Rightarrow> nat \<Rightarrow> (string \<times> block) list \<Rightarrow> blockchain \<Rightarrow> blockchain \<times> bool outcome"
where
  "add_block E 0 bc b = (bc, OutOfFuel)"
| "add_block E (Suc n) bc b =
     (if \<not> is_valid E b then (bc, Returned False)
      else
        (case last_block bc of
           Inl e \<Rightarrow> (bc, Raised e)
         | Inr tip \<Rightarrow>
             if previous_hash b = hash tip then
               (if \<not> validate E (pow bc) b then (bc, Returned False)
                else
                  (case process_pending_blocks E n (bc\<lparr>chain := chain bc @ [b]\<rparr>) of
                     (bc', Returned u) \<Rightarrow> (bc', Returned True)
                   | (bc', Raised e) \<Rightarrow> (bc', Raised e)
                   | (bc', OutOfFuel) \<Rightarrow> (bc', OutOfFuel)))
             else
               (bc\<lparr>pending_blocks := dict_set (hash b) b (pending_blocks bc)\<rparr>,
                Returned False)))"
| "process_pending_blocks E 0 bc = (bc, OutOfFuel)"
| "process_pending_blocks E (Suc n) bc =
     (case pending_scan E n (pending_blocks bc) bc of
        (bc', Returned added_blocks) \<Rightarrow>
          if added_blocks then process_pending_blocks E n bc' else (bc', Returned ())
      | (bc', Raised e) \<Rightarrow> (bc', Raised e)
      | (bc', OutOfFuel) \<Rightarrow> (bc', OutOfFuel))"
| "pending_scan E n [] bc = (bc, Returned False)"
| "pending_scan E n ((block_hash, b) # rest) bc =
     (case last_block bc of
        Inl e \<Rightarrow> (bc, Raised e)
      | Inr tip \<Rightarrow>
          if previous_hash b = hash tip then
            (case add_block E n bc b of
               (bc', Returned ok) \<Rightarrow>
                 if ok then
                   (case dict_del block_hash (pending_blocks bc') of
                      Inl e \<Rightarrow> (bc', Raised e)
                    | Inr p \<Rightarrow> (bc'\<lparr>pending_blocks := p\<rparr>, Returned True))
                 else pending_scan E n rest bc'
             | (bc', Raised e) \<Rightarrow> (bc', Raised e)
             | (bc', OutOfFuel) \<Rightarrow> (bc', OutOfFuel))
          else pending_scan E n rest bc)"
  by pat_completeness auto
termination
  by (relation "inv_image (less_than <*lex*> less_than)
        (\<lambda>x. case x of
           Inl (E, n, bc, b) \<Rightarrow> (3 * n + 1, 0)
         | Inr (Inl (E, n, bc)) \<Rightarrow> (3 * n, 0)
         | Inr (Inr (E, n, xs, bc)) \<Rightarrow> (3 * n + 2, length xs))") auto

text \<open>
  \<open>ProofOfWork.mine\<close>.  Its first log line formats \<open>block.height\<close>, an attribute
  \<open>Block\<close> never defines, so the call raises before the search; \<open>mine_from\<close> is the
  search loop \<open>for nonce in range(max_nonce)\<close> that follows.
\<close>

definition block_height :: "block \<Rightarrow> exn + int" where
  "block_height b = Inl AttributeError"

function mine_from :: "env \<Rightarrow> ProofOfWork \<Rightarrow> block \<Rightarrow> nat \<Rightarrow> block \<times> bool" where
  "mine_from E p b n =
     (if 2 ^ 32 \<le> n then (b, False)
      else
        (let b' = b\<lparr>nonce := int n\<rparr>; block_hash = calculate_hash E b' in
         if startswith block_hash (target p) then (b'\<lparr>hash := block_hash\<rparr>, True)
         else mine_from E p b' (Suc n)))"
  by pat_completeness auto
termination
  by (relation "measure (\<lambda>(E, p, b, n). 2 ^ 32 - n)") auto

declare mine_from.simps [simp del]

declare add_block.simps [simp del] process_pending_blocks.simps [simp del]
  pending_scan.simps [simp del]

definition mine :: "env \<Rightarrow> ProofOfWork \<Rightarrow> block \<Rightarrow> exn + block \<times> bool" where
  "mine E p b =
     (case block_height b of
        Inl e \<Rightarrow> Inl e
      | Inr h \<Rightarrow> Inr (mine_from E p b 0))"

definition mine_block ::
  "env \<Rightarrow> nat \<Rightarrow> int \<Rightarrow> blockchain \<Rightarrow> string \<Rightarrow> blockchain \<times> block option outcome" where
  "mine_block E fuel now bc miner_address =
     (if unconfirmed_transactions bc = [] then (bc, Returned None)
      else
        (case last_block bc of
           Inl e \<Rightarrow> (bc, Raised e)
         | Inr tip \<Rightarrow>
             (let new_block =
                    Block_init E now miner_address OwnList
                      (take 10 (unconfirmed_transactions bc)) (hash tip) None 0 (bc_difficulty bc)
              in case mine E (pow bc) new_block of
                   Inl e \<Rightarrow> (bc, Raised e)
                 | Inr (mined, found) \<Rightarrow>
                     if found then
                       (case add_block E fuel
                               (bc\<lparr>unconfirmed_obj := Suc (unconfirmed_obj bc),
                                   unconfirmed_transactions :=
                                     drop 10 (unconfirmed_transactions bc)\<rparr>) mined of
                          (bc', Returned ok) \<Rightarrow>
                            (bc', Returned (if ok then Some mined else None))
                        | (bc', Raised e) \<Rightarrow> (bc', Raised e)
                        | (bc', OutOfFuel) \<Rightarrow> (bc', OutOfFuel))
                     else (bc, Returned None))))"

text \<open>\<open>Blockchain.get_balance\<close>.\<close>

fun balance_txs :: "string \<Rightarrow> transaction list \<Rightarrow> int \<Rightarrow> int" where
  "balance_txs address [] balance = balance"
| "balance_txs address (tx # txs) balance =
     (let b1 = (if recipient tx = address then balance + amount tx else balance);
          b2 = (if sender tx = address then b1 - amount tx else b1)
      in balance_txs address txs b2)"

fun balance_blocks :: "string \<Rightarrow> block list \<Rightarrow> int \<Rightarrow> int" where
  "balance_blocks address [] balance = balance"
| "balance_blocks address (b # bs) balance =
     balance_blocks address bs (balance_txs address (transactions b) balance)"

definition get_balance :: "blockchain \<Rightarrow> string \<Rightarrow> int" where
  "get_balance bc address = balance_blocks address (chain bc) 0"

text \<open>
  The chain state machine: the four operations that change a node's chain state.
  \<open>apply_operation\<close> gives the state an operation leaves behind, whatever its outcome
  (value, exception or exhausted bound); \<open>run\<close> applies a sequence of them.  A block
  handed to an operation is an object of the caller: when its \<open>transactions\<close> attribute
  is the mempool list of the state, it holds at the call what the mempool holds
  (\<open>as_passed\<close>).
\<close>

definition as_passed :: "blockchain \<Rightarrow> block \<Rightarrow> block" where
  "as_passed bc b =
     (if transactions_obj b = MempoolList (unconfirmed_obj bc)
      then b\<lparr>transactions := unconfirmed_transactions bc\<rparr> else b)"

datatype operation =
    AddTransaction transaction
  | MineBlock string int
  | AddBlock block
  | ReplaceChain "block list"

fun apply_operation :: "env \<Rightarrow> nat \<Rightarrow> blockchain \<Rightarrow> operation \<Rightarrow> blockchain" where
  "apply_operation E fuel bc (AddTransaction tx) = fst (add_transaction E bc tx)"
| "apply_operation E fuel bc (MineBlock miner_address now) =
     fst (mine_block E fuel now bc miner_address)"
| "apply_operation E fuel bc (AddBlock b) = fst (add_block E fuel bc (as_passed bc b))"
| "apply_operation E fuel bc (ReplaceChain c) =
     fst (replace_chain E bc (map (as_passed bc) c))"

definition run :: "env \<Rightarrow> nat \<Rightarrow> blockchain \<Rightarrow> operation list \<Rightarrow> blockchain" where
  "run E fuel bc ops = foldl (apply_operation E fuel) bc ops"



text \<open>
  What \<open>add_block\<close> on a block that links to the tip, and the drain of the pending
  set, change of a state: blocks are appended to the chain and entries are deleted from
  the pending set.
\<close>

definition drained :: "blockchain \<Rightarrow> blockchain \<Rightarrow> bool" where
  "drained bc bc' =
     ((\<exists>more. chain bc' = chain bc @ more) \<and> pow bc' = pow bc \<and>
      (\<exists>ks. pending_blocks bc' = filter (\<lambda>p. fst p \<notin> ks) (pending_blocks bc)))"

text \<open>
  The blocks a chain state holds, and what it means that the holders of the mempool list
  agree: a block of the state whose \<open>transactions\<close> attribute is the mempool list holds
  what the mempool holds.
\<close>

definition state_blocks :: "blockchain \<Rightarrow> block set" where
  "state_blocks bc =
     set (chain bc) \<union> snd ` set (orphan_blocks bc) \<union> snd ` set (pending_blocks bc)"

definition same_mempool :: "blockchain \<Rightarrow> blockchain \<Rightarrow> bool" where
  "same_mempool bc bc' =
     (unconfirmed_obj bc' = unconfirmed_obj bc \<and>
      unconfirmed_transactions bc' = unconfirmed_transactions bc)"

definition aliases_agree :: "blockchain \<Rightarrow> bool" where
  "aliases_agree bc =
     (\<forall>b\<in>state_blocks bc.
        transactions_obj b = MempoolList (unconfirmed_obj bc) \<longrightarrow>
        transactions b = unconfirmed_transactions bc)"

text \<open>
  \<open>Wallet.get_balance\<close> (blockchain/wallet.py): one pass over the chain with the set
  \<open>seen_transactions\<close> of identity hashes; it reads \<open>tx.calculate_hash()\<close> and \<open>tx.fee\<close>.
\<close>

fun wallet_balance_txs ::
  "env \<Rightarrow> string \<Rightarrow> transaction list \<Rightarrow> string set \<times> int \<Rightarrow> exn + string set \<times> int" where
  "wallet_balance_txs E address [] acc = Inr acc"
| "wallet_balance_txs E address (tx # txs) (seen_transactions, balance) =
     (case tx_calculate_hash E tx of
        Inl e \<Rightarrow> Inl e
      | Inr tx_hash \<Rightarrow>
          if tx_hash \<in> seen_transactions then
            wallet_balance_txs E address txs (seen_transactions, balance)
          else
            (let seen' = insert tx_hash seen_transactions;
                 b1 = (if recipient tx = address then balance + amount tx else balance)
             in if sender tx = address then
                  (case tx_fee tx of
                     Inl e \<Rightarrow> Inl e
                   | Inr f \<Rightarrow> wallet_balance_txs E address txs (seen', b1 - (amount tx + f)))
                else wallet_balance_txs E address txs (seen', b1)))"

fun wallet_balance_blocks ::
  "env \<Rightarrow> string \<Rightarrow> block list \<Rightarrow> string set \<times> int \<Rightarrow> exn + string set \<times> int" where
  "wallet_balance_blocks E address [] acc = Inr acc"
| "wallet_balance_blocks E address (b # bs) acc =
     (case wallet_balance_txs E address (transactions b) acc of
        Inl e \<Rightarrow> Inl e
      | Inr acc' \<Rightarrow> wallet_balance_blocks E address bs acc')"

definition wallet_get_balance :: "env \<Rightarrow> string \<Rightarrow> blockchain \<Rightarrow> exn + int" where
  "wallet_get_balance E address bc =
     (case wallet_balance_blocks E address (chain bc) ({}, 0) of
        Inl e \<Rightarrow> Inl e
      | Inr (seen_transactions, balance) \<Rightarrow> Inr balance)"

section \<open>The Merkle tree (blockchain/merkle-tree.py)\<close>

text \<open>
  \<open>_build_tree\<close> starts its loop with \<open>nodes = self.leaves\<close>, the same list object, so
  the padding \<open>nodes.append(nodes[-1])\<close> of the first round also lengthens
  \<open>self.leaves\<close>; later rounds work on fresh lists.  \<open>get_proof\<close> aliases the leaves the
  same way and returns the tree it leaves behind with the proof.  The leaf search returns
  \<open>None\<close> where the source keeps \<open>leaf_index = -1\<close>.  As in \<open>pair_hashes\<close>, \<open>parents\<close>
  runs on lists of even length only.
\<close>

datatype MerkleNode =
  MerkleNode (node_hash: string) (left: "MerkleNode option") (right: "MerkleNode option")

record MerkleTree =
  mt_transactions :: "(string \<times> json) list list"
  leaves :: "MerkleNode list"
  root :: "MerkleNode option"

fun parents :: "env \<Rightarrow> MerkleNode list \<Rightarrow> MerkleNode list" where
  "parents E (a # b # rest) =
     MerkleNode (hash_data E (HStr (node_hash a @ node_hash b))) (Some a) (Some b)
     # parents E rest"
| "parents E [a] = []"
| "parents E [] = []"

lemma length_parents: "length (parents E xs) = length xs div 2"
  by (induction E xs rule: parents.induct) simp_all

function build_loop :: "env \<Rightarrow> MerkleNode list \<Rightarrow> MerkleNode list" where
  "build_loop E nodes =
     (if length nodes > 1 then build_loop E (parents E (pad_odd nodes)) else nodes)"
  by pat_completeness auto
termination
  by (relation "measure (\<lambda>(E, nodes). length nodes)")
     (auto simp: length_parents length_pad_odd)

declare build_loop.simps [simp del]

definition MerkleTree_init :: "env \<Rightarrow> (string \<times> json) list list \<Rightarrow> MerkleTree" where
  "MerkleTree_init E txs =
     (let lv = map (\<lambda>tx. MerkleNode (hash_data E (HDict tx)) None None) txs in
      if lv = [] then
        \<lparr>mt_transactions = txs, leaves = lv,
         root = Some (MerkleNode (hash_data E (HStr ''empty_tree'')) None None)\<rparr>
      else
        \<lparr>mt_transactions = txs,
         leaves = (if length lv > 1 then pad_odd lv else lv),
         root = Some (hd (build_loop E lv))\<rparr>)"

definition get_root_hash :: "MerkleTree \<Rightarrow> string" where
  "get_root_hash T = (case root T of None \<Rightarrow> '''' | Some r \<Rightarrow> node_hash r)"

fun find_leaf :: "MerkleNode list \<Rightarrow> string \<Rightarrow> nat \<Rightarrow> nat option" where
  "find_leaf [] transaction_hash i = None"
| "find_leaf (leaf # rest) transaction_hash i =
     (if node_hash leaf = transaction_hash then Some i
      else find_leaf rest transaction_hash (Suc i))"

record proof_step =
  step_hash :: string
  position :: string

function proof_loop :: "env \<Rightarrow> MerkleNode list \<Rightarrow> nat \<Rightarrow> proof_step list \<Rightarrow> proof_step list" where
  "proof_loop E nodes current_index proof =
     (if length nodes > 1 then
        (let nodes' = pad_odd nodes;
             is_right = (current_index mod 2 = 0);
             sibling_index = (if is_right then current_index + 1 else current_index - 1);
             proof' = proof @ [\<lparr>step_hash = node_hash (nodes' ! sibling_index),
                                position = (if is_right then ''right'' else ''left'')\<rparr>]
         in proof_loop E (parents E nodes') (current_index div 2) proof')
      else proof)"
  by pat_completeness auto
termination
  by (relation "measure (\<lambda>(E, nodes, i, p). length nodes)")
     (auto simp: length_parents length_pad_odd)

declare proof_loop.simps [simp del]

definition get_proof :: "env \<Rightarrow> MerkleTree \<Rightarrow> string \<Rightarrow> MerkleTree \<times> proof_step list" where
  "get_proof E T transaction_hash =
     (case root T of
        None \<Rightarrow> (T, [])
      | Some r \<Rightarrow>
          (case find_leaf (leaves T) transaction_hash 0 of
             None \<Rightarrow> (T, [])
           | Some leaf_index \<Rightarrow>
               (T\<lparr>leaves := (if length (leaves T) > 1 then pad_odd (leaves T) else leaves T)\<rparr>,
                proof_loop E (leaves T) leaf_index [])))"

fun verify_steps :: "env \<Rightarrow> string \<Rightarrow> proof_step list \<Rightarrow> string" where
  "verify_steps E current_hash [] = current_hash"
| "verify_steps E current_hash (step # rest) =
     (if position step = ''left''
      then verify_steps E (hash_data E (HStr (step_hash step @ current_hash))) rest
      else verify_steps E (hash_data E (HStr (current_hash @ step_hash step))) rest)"

definition verify_proof :: "env \<Rightarrow> string \<Rightarrow> proof_step list \<Rightarrow> string \<Rightarrow> bool" where
  "verify_proof E transaction_hash proof root_hash =
     (verify_steps E transaction_hash proof = root_hash)"

section \<open>The wallet (blockchain/wallet.py)\<close>

text \<open>
  The calls into \<open>hashlib\<close>, \<open>base64\<close> and \<open>cryptography\<close> are parameters of the model,
  each returning its value or the exception it raises.  Python's integers carry the
  Base58 value; they are never negative here and are modelled as natural numbers.
\<close>

type_synonym byte = "8 word"

datatype public_key = PublicKey "byte list"

record crypto =
  sha256 :: "byte list \<Rightarrow> byte list"
  ripemd160 :: "byte list \<Rightarrow> byte list"
  load_pem_public_key :: "byte list \<Rightarrow> exn + public_key"
  b64decode :: "string \<Rightarrow> exn + byte list"
  fromhex :: "string \<Rightarrow> exn + byte list"
  ecdsa_verify :: "public_key \<Rightarrow> byte list \<Rightarrow> byte list \<Rightarrow> exn + unit"

definition alphabet :: string where
  "alphabet = ''123456789ABCDEFGHJKLMNPQRSTUVWXYZabcdefghijkmnopqrstuvwxyz''"

fun from_bytes_acc :: "nat \<Rightarrow> byte list \<Rightarrow> nat" where
  "from_bytes_acc v [] = v"
| "from_bytes_acc v (b # bs) = from_bytes_acc (v * 256 + unat b) bs"

definition from_bytes :: "byte list \<Rightarrow> nat" where
  "from_bytes bs = from_bytes_acc 0 bs"

function b58_encode_loop :: "nat \<Rightarrow> string \<Rightarrow> string" where
  "b58_encode_loop v result =
     (if v \<noteq> 0 then b58_encode_loop (v div 58) (alphabet ! (v mod 58) # result) else result)"
  by pat_completeness auto
termination
  by (relation "measure (\<lambda>(v, result). v)") auto

declare b58_encode_loop.simps [simp del]

fun leading_ones :: "byte list \<Rightarrow> string \<Rightarrow> string" where
  "leading_ones [] result = result"
| "leading_ones (b # rest) result =
     (if b = 0 then leading_ones rest (alphabet ! 0 # result) else result)"

definition generate_address :: "crypto \<Rightarrow> byte list \<Rightarrow> string" where
  "generate_address C public_bytes =
     (let sha256_hash = sha256 C public_bytes;
          ripemd160_hash = ripemd160 C sha256_hash;
          versioned_hash = 0 # ripemd160_hash;
          checksum = take 4 (sha256 C (sha256 C versioned_hash));
          binary_address = versioned_hash @ checksum;
          v = from_bytes binary_address;
          result = b58_encode_loop v []
      in leading_ones versioned_hash result)"

fun index_of :: "'a list \<Rightarrow> 'a \<Rightarrow> nat option" where
  "index_of [] c = None"
| "index_of (x # xs) c = (if x = c then Some 0 else map_option Suc (index_of xs c))"

fun b58_decode_loop :: "string \<Rightarrow> nat \<Rightarrow> exn + nat" where
  "b58_decode_loop [] v = Inr v"
| "b58_decode_loop (c # cs) v =
     (case index_of alphabet c of
        None \<Rightarrow> Inl ValueError
      | Some k \<Rightarrow> b58_decode_loop cs (v * 58 + k))"

fun bit_length :: "nat \<Rightarrow> nat" where
  "bit_length v = (if v = 0 then 0 else Suc (bit_length (v div 2)))"

declare bit_length.simps [simp del]

definition to_bytes :: "nat \<Rightarrow> nat \<Rightarrow> exn + byte list" where
  "to_bytes v len =
     (if 256 ^ len \<le> v then Inl OverflowError
      else Inr (map (\<lambda>k. word_of_nat (v div 256 ^ (len - 1 - k))) [0..<len]))"

definition is_valid_address :: "crypto \<Rightarrow> string \<Rightarrow> bool" where
  "is_valid_address C address =
     (case b58_decode_loop address 0 of
        Inl e \<Rightarrow> False
      | Inr v \<Rightarrow>
          (case to_bytes v ((bit_length v + 7) div 8) of
             Inl e \<Rightarrow> False
           | Inr binary_address \<Rightarrow>
               if length binary_address \<noteq> 25 then False
               else
                 (let versioned_hash = take (length binary_address - 4) binary_address;
                      checksum = drop (length binary_address - 4) binary_address;
                      calculated_checksum = take 4 (sha256 C (sha256 C versioned_hash))
                  in checksum = calculated_checksum)))"

text \<open>
  \<open>Wallet.verify_transaction\<close>.  \<open>base64.b64decode(None)\<close> raises \<open>TypeError\<close> before any
  decoding; the \<open>except\<close> clause catches \<open>InvalidSignature\<close> and \<open>ValueError\<close> only.
\<close>

definition verify_transaction :: "env \<Rightarrow> crypto \<Rightarrow> transaction \<Rightarrow> byte list \<Rightarrow> exn + bool" where
  "verify_transaction E C tx public_key_bytes =
     (let attempt =
        (case load_pem_public_key C public_key_bytes of
           Inl e \<Rightarrow> Inl e
         | Inr public_key \<Rightarrow>
             (case (case signature tx of None \<Rightarrow> Inl TypeError | Some s \<Rightarrow> b64decode C s) of
                Inl e \<Rightarrow> Inl e
              | Inr sig \<Rightarrow>
                  (case tx_calculate_hash E tx of
                     Inl e \<Rightarrow> Inl e
                   | Inr h \<Rightarrow>
                       (case fromhex C h of
                          Inl e \<Rightarrow> Inl e
                        | Inr tx_hash \<Rightarrow>
                            (case ecdsa_verify C public_key sig tx_hash of
                               Inl e \<Rightarrow> Inl e
                             | Inr u \<Rightarrow> Inr True)))))
      in case attempt of
           Inl e \<Rightarrow> if e = InvalidSignature \<or> e = ValueError then Inr False else Inl e
         | Inr r \<Rightarrow> Inr r)"

section \<open>A concrete environment for evaluating the model\<close>

text \<open>
  To run the model on examples the two library parameters are instantiated: the digest
  of a text is a 16-bit rotate-and-xor checksum behind four zeros (so every digest meets
  difficulty 4), and dictionaries are rendered as JSON text in the order \<open>to_dict\<close>
  lists the keys.
\<close>

function show_nat :: "nat \<Rightarrow> string" where
  "show_nat n =
     (if n < 10 then [char_of (48 + n)]
      else show_nat (n div 10) @ [char_of (48 + n mod 10)])"
  by pat_completeness auto
termination
  by (relation "measure id") auto

definition show_int :: "int \<Rightarrow> string" where
  "show_int i = (if i < 0 then CHR ''-'' # show_nat (nat (- i)) else show_nat (nat i))"

fun join :: "string \<Rightarrow> string list \<Rightarrow> string" where
  "join sep [] = []"
| "join sep [x] = x"
| "join sep (x # y # zs) = x @ sep @ join sep (y # zs)"

fun render :: "json \<Rightarrow> string" where
  "render JNull = ''null''"
| "render (JStr s) = CHR 0x22 # s @ [CHR 0x22]"
| "render (JNum n) = show_int n"
| "render (JList xs) = ''['' @ join '', '' (map render xs) @ '']''"
| "render (JDict kv) =
     ''{'' @ join '', '' (map (\<lambda>p. CHR 0x22 # fst p @ [CHR 0x22] @ '': '' @ render (snd p)) kv)
     @ ''}''"

definition char_bits :: "char \<Rightarrow> bool list" where
  "char_bits c = (case c of Char b0 b1 b2 b3 b4 b5 b6 b7 \<Rightarrow> [b0, b1, b2, b3, b4, b5, b6, b7])"

definition toy_mix :: "bool list \<Rightarrow> char \<Rightarrow> bool list" where
  "toy_mix st c = rotate1 (map2 (\<lambda>a b. a \<noteq> b) st (char_bits c @ rev (char_bits c)))"

definition toy_digest :: "string \<Rightarrow> string" where
  "toy_digest s =
     ''0000'' @ map (\<lambda>b. if b then CHR ''1'' else CHR ''0'')
                 (foldl toy_mix (replicate 16 False) s)"

definition demo_env :: env where
  "demo_env = \<lparr>sha256_hex = toy_digest, json_dumps = render\<rparr>"

definition demo_chain :: blockchain where
  "demo_chain = Blockchain_init demo_env 5 4"

definition demo_genesis :: block where
  "demo_genesis = hd (chain demo_chain)"

definition demo_tx :: "string \<Rightarrow> string \<Rightarrow> int \<Rightarrow> transaction" where
  "demo_tx s r a = BlockTx s r a (Some ''sig'') 6"

definition demo_block :: "string \<Rightarrow> block \<Rightarrow> block" where
  "demo_block m prev =
     Block_init demo_env 7 m OwnList [demo_tx ''A'' ''B'' 5] (hash prev) None 0 4"



definition demo_bk :: block where "demo_bk = demo_block ''K'' demo_genesis"
definition demo_fork :: block where "demo_fork = demo_block ''X'' demo_bk"
definition demo_b1 :: block where "demo_b1 = demo_block ''N'' demo_bk"
definition demo_b2 :: block where "demo_b2 = demo_block ''O'' demo_b1"

definition fork_state :: blockchain where
  "fork_state = run demo_env 9 demo_chain [AddBlock demo_fork, AddBlock demo_b1, AddBlock demo_b2]"

definition drain_state :: blockchain where
  "drain_state = run demo_env 9 demo_chain [AddBlock demo_b2, AddBlock demo_b1]"

definition demo_b3 :: block where "demo_b3 = demo_block ''P'' demo_b2"

definition busy_state :: blockchain where
  "busy_state =
     run demo_env 9 demo_chain
       [AddBlock demo_b1, AddBlock demo_fork, AddBlock demo_b3, AddBlock demo_b2]"

text \<open>
  A chain of difficulty 5 and blocks that declare difficulty 4: their digests meet the
  blocks' own difficulty, and the chain's target only when the fifth character is a zero.
\<close>

definition chain5 :: blockchain where
  "chain5 = Blockchain_init demo_env 5 5"

definition weak_genesis :: block where "weak_genesis = hd (chain chain5)"
definition weak_bk :: block where "weak_bk = demo_block ''K'' weak_genesis"
definition weak_b1 :: block where "weak_b1 = demo_block ''N'' weak_bk"
definition weak_b2 :: block where "weak_b2 = demo_block ''O'' weak_b1"

definition weak_state :: blockchain where
  "weak_state = run demo_env 9 chain5 [AddBlock weak_b1, AddBlock weak_b2]"

definition paid_twice :: "transaction list" where
  "paid_twice =
     [WalletTx ''A'' ''B'' 5 0 0 1 None (Some ''sig''),
      WalletTx ''A'' ''B'' 5 0 0 1 None (Some ''sig'')]"

definition demo_wallet_tx :: transaction where
  "demo_wallet_tx = WalletTx ''A'' ''B'' 5 0 0 1 None (Some ''sig'')"

text \<open>
  \<open>Block('M', bc.unconfirmed_transactions, bc.last_block.hash, difficulty=0)\<close> on a fresh
  \<open>Blockchain(0)\<close>: the block holds the (empty) mempool list itself.
\<close>

definition shared_block :: block where
  "shared_block =
     Block_init demo_env 7 ''M'' (MempoolList 0) []
       (hash (last (chain (Blockchain_init demo_env 5 0)))) None 0 0"

definition shared_ops :: "operation list" where
  "shared_ops = [AddBlock shared_block, AddTransaction demo_wallet_tx]"

definition demo_tx_dicts :: "(string \<times> json) list list" where
  "demo_tx_dicts =
     map to_dict [demo_tx ''A'' ''B'' 5, demo_tx ''B'' ''C'' 2, demo_tx ''C'' ''A'' 1]"

definition demo_crypto :: crypto where
  "demo_crypto =
     \<lparr>sha256 = (\<lambda>bs. replicate 32 (of_nat (length bs))),
      ripemd160 = (\<lambda>bs. replicate 20 (of_nat (length bs))),
      load_pem_public_key = (\<lambda>bs. if bs = [] then Inl ValueError else Inr (PublicKey bs)),
      b64decode = (\<lambda>s. Inr (map (\<lambda>c. of_nat (of_char c)) s)),
      fromhex = (\<lambda>s. Inr (map (\<lambda>c. of_nat (of_char c)) s)),
      ecdsa_verify = (\<lambda>k sig h. if sig = h then Inr () else Inl InvalidSignature)\<rparr>"

section \<open>Properties of verification and replacement\<close>

lemma check_from_index:
  "check_from E p g rest \<longleftrightarrow>
     (\<forall>i. 1 \<le> i \<and> i < length (g # rest) \<longrightarrow>
        is_valid E ((g # rest) ! i) \<and>
        previous_hash ((g # rest) ! i) = hash ((g # rest) ! (i - 1)) \<and>
        validate E p ((g # rest) ! i))"
proof (induction rest arbitrary: g)
  case Nil
  show ?case by simp
next
  case (Cons c rest)
  have step: "(\<forall>i. 1 \<le> i \<and> i < length (g # c # rest) \<longrightarrow> Q i) \<longleftrightarrow>
              Q 1 \<and> (\<forall>i. 1 \<le> i \<and> i < length (c # rest) \<longrightarrow> Q (Suc i))" for Q :: "nat \<Rightarrow> bool"
  proof
    assume a: "\<forall>i. 1 \<le> i \<and> i < length (g # c # rest) \<longrightarrow> Q i"
    then show "Q 1 \<and> (\<forall>i. 1 \<le> i \<and> i < length (c # rest) \<longrightarrow> Q (Suc i))" by simp
  next
    assume b: "Q 1 \<and> (\<forall>i. 1 \<le> i \<and> i < length (c # rest) \<longrightarrow> Q (Suc i))"
    show "\<forall>i. 1 \<le> i \<and> i < length (g # c # rest) \<longrightarrow> Q i"
    proof (intro allI impI)
      fix i assume i: "1 \<le> i \<and> i < length (g # c # rest)"
      show "Q i"
      proof (cases "i = 1")
        case True
        with b show ?thesis by simp
      next
        case False
        with i obtain j where j: "i = Suc j" "1 \<le> j" "j < length (c # rest)"
          by (cases i) auto
        with b show ?thesis by blast
      qed
    qed
  qed
  show ?case
    by (subst step) (auto simp: Cons.IH)
qed

text \<open>
  C10.  A freshly constructed \<open>Blockchain(d)\<close> verifies, for every difficulty \<open>d\<close>
  (and every clock reading and hash function): the chain holds the genesis block only,
  and \<open>verify_chain\<close> starts its checks at index 1, so that a one-block chain verifies
  whatever its block \<open>g\<close> is; \<open>_validate_chain\<close> asks of a candidate's first block only
  that its hash be the hash of the own genesis block.
\<close>

theorem fresh_chain_verifies:
  "verify_chain E (Blockchain_init E now d) = True \<and>
   length (chain (Blockchain_init E now d)) = 1 \<and>
   verify_chain E (bc\<lparr>chain := [g]\<rparr>) = True \<and>
   validate_chain E (bc\<lparr>chain := [g]\<rparr>) [g'] = Inr (hash g' = hash g)"
  by (simp add: verify_chain_def validate_chain_def Blockchain_init_def
        create_genesis_block_def)

text \<open>
  C7.  \<open>replace_chain(c)\<close> returns true exactly when \<open>c\<close> is non-empty, its first
  block has the hash of the current genesis block, every block of \<open>c\<close> at an index
  from 1 on passes \<open>is_valid\<close>, links to its predecessor in \<open>c\<close> and passes
  \<open>pow.validate\<close>, and \<open>c\<close> is strictly longer than the current chain.  Otherwise it
  returns false and the state is unchanged; on success the chain is \<open>c\<close>.
\<close>

theorem replace_chain_accepts_iff:
  assumes "chain bc \<noteq> []"
  shows "(snd (replace_chain E bc c) = Returned True \<longleftrightarrow>
            c \<noteq> [] \<and> hash (c ! 0) = hash (chain bc ! 0) \<and>
            (\<forall>i. 1 \<le> i \<and> i < length c \<longrightarrow>
               is_valid E (c ! i) \<and> previous_hash (c ! i) = hash (c ! (i - 1)) \<and>
               validate E (pow bc) (c ! i)) \<and>
            length (chain bc) < length c)
         \<and> (snd (replace_chain E bc c) \<noteq> Returned True \<longrightarrow>
              replace_chain E bc c = (bc, Returned False))
         \<and> (snd (replace_chain E bc c) = Returned True \<longrightarrow>
              fst (replace_chain E bc c) = bc\<lparr>chain := c\<rparr>)"
proof -
  from assms obtain own_g own_rest where own: "chain bc = own_g # own_rest"
    by (cases "chain bc") auto
  show ?thesis
  proof (cases c)
    case Nil
    then show ?thesis
      by (simp add: replace_chain_def validate_chain_def)
  next
    case (Cons g rest)
    have idx: "check_from E (pow bc) g rest \<longleftrightarrow>
                 (\<forall>i. 1 \<le> i \<and> i < length c \<longrightarrow>
                    is_valid E (c ! i) \<and> previous_hash (c ! i) = hash (c ! (i - 1)) \<and>
                    validate E (pow bc) (c ! i))"
      unfolding Cons by (rule check_from_index)
    show ?thesis
    proof (cases "hash g = hash own_g")
      case False
      then show ?thesis
        using Cons own by (simp add: replace_chain_def validate_chain_def)
    next
      case same: True
      show ?thesis
      proof (cases "check_from E (pow bc) g rest")
        case False
        then show ?thesis
          using Cons own same idx by (simp add: replace_chain_def validate_chain_def)
      next
        case True
        then show ?thesis
          using Cons own same idx
          by (simp add: replace_chain_def validate_chain_def not_le)
      qed
    qed
  qed
qed

theorem replace_chain_accepts_iff_witness:
  "chain demo_chain \<noteq> [] \<and>
   replace_chain demo_env demo_chain [demo_genesis, demo_block ''M'' demo_genesis] =
     (demo_chain\<lparr>chain := [demo_genesis, demo_block ''M'' demo_genesis]\<rparr>, Returned True) \<and>
   replace_chain demo_env demo_chain [demo_genesis] = (demo_chain, Returned False)"
proof -
  have ne: "chain demo_chain \<noteq> []"
    by code_simp
  have acc: "snd (replace_chain demo_env demo_chain
                    [demo_genesis, demo_block ''M'' demo_genesis]) = Returned True"
    by code_simp
  have rej: "snd (replace_chain demo_env demo_chain [demo_genesis]) \<noteq> Returned True"
    by code_simp
  from replace_chain_accepts_iff [OF ne, of demo_env "[demo_genesis, demo_block ''M'' demo_genesis]"]
       replace_chain_accepts_iff [OF ne, of demo_env "[demo_genesis]"] acc rej ne
  show ?thesis
    by (metis prod.collapse)
qed

section \<open>The invariant of accepted blocks\<close>

















section \<open>The pending-block drain\<close>

lemma scan_none:
  assumes ne: "chain s \<noteq> []"
    and no: "\<forall>p\<in>set xs. previous_hash (snd p) \<noteq> hash (last (chain s))"
  shows "pending_scan E n xs s = (s, Returned False)"
  using no
proof (induction xs)
  case Nil
  show ?case by (simp add: pending_scan.simps)
next
  case (Cons p xs)
  obtain h b where p: "p = (h, b)" by (cases p)
  from Cons.prems p have "previous_hash b \<noteq> hash (last (chain s))" by simp
  moreover from Cons have "pending_scan E n xs s = (s, Returned False)" by simp
  ultimately show ?case
    using ne p by (simp add: pending_scan.simps last_block_def)
qed

lemma drain_none:
  assumes "chain s \<noteq> []"
    and "\<forall>p\<in>set (pending_blocks s). previous_hash (snd p) \<noteq> hash (last (chain s))"
  shows "process_pending_blocks E (Suc n) s = (s, Returned ())"
  by (simp add: process_pending_blocks.simps scan_none [OF assms])

lemma scan_first:
  assumes ne: "chain s \<noteq> []"
    and pre: "\<forall>p\<in>set pre. previous_hash (snd p) \<noteq> hash (last (chain s))"
    and link: "previous_hash b = hash (last (chain s))"
    and ab: "add_block E n s b = (s', Returned True)"
    and key: "h \<in> fst ` set (pending_blocks s')"
  shows "pending_scan E n (pre @ (h, b) # post) s =
           (s'\<lparr>pending_blocks := filter (\<lambda>p. fst p \<noteq> h) (pending_blocks s')\<rparr>, Returned True)"
  using pre
proof (induction pre)
  case Nil
  show ?case
    using ne link ab key by (simp add: pending_scan.simps last_block_def dict_del_def)
next
  case (Cons p pre)
  obtain h' b' where p: "p = (h', b')" by (cases p)
  from Cons.prems p have "previous_hash b' \<noteq> hash (last (chain s))" by simp
  moreover from Cons have "pending_scan E n (pre @ (h, b) # post) s =
      (s'\<lparr>pending_blocks := filter (\<lambda>p. fst p \<noteq> h) (pending_blocks s')\<rparr>, Returned True)"
    by simp
  ultimately show ?case
    using ne p by (simp add: pending_scan.simps last_block_def)
qed

lemma add_block_links:
  assumes "is_valid E b" and "chain s \<noteq> []"
    and "previous_hash b = hash (last (chain s))" and "validate E (pow s) b"
    and "process_pending_blocks E n (s\<lparr>chain := chain s @ [b]\<rparr>) = (s', Returned ())"
  shows "add_block E (Suc n) s b = (s', Returned True)"
  using assms by (simp add: add_block.simps last_block_def)

lemma drained_refl: "drained bc bc"
  unfolding drained_def
  by (auto intro: exI [of _ "{}"])

lemma drained_trans:
  assumes "drained a b" and "drained b c"
  shows "drained a c"
proof -
  from assms obtain m1 m2 k1 k2 where
    c1: "chain b = chain a @ m1" and c2: "chain c = chain b @ m2"
    and p1: "pending_blocks b = filter (\<lambda>p. fst p \<notin> k1) (pending_blocks a)"
    and p2: "pending_blocks c = filter (\<lambda>p. fst p \<notin> k2) (pending_blocks b)"
    and pw: "pow b = pow a" "pow c = pow b"
    unfolding drained_def by blast
  have ch: "\<exists>more. chain c = chain a @ more" using c1 c2 by simp
  have pe: "\<exists>ks. pending_blocks c = filter (\<lambda>p. fst p \<notin> ks) (pending_blocks a)"
  proof (rule exI)
    show "pending_blocks c = filter (\<lambda>p. fst p \<notin> k1 \<union> k2) (pending_blocks a)"
      unfolding p2 p1 by (auto intro: filter_cong)
  qed
  have "pow c = pow a" using pw by simp
  with ch pe show ?thesis
    unfolding drained_def by (intro conjI)
qed

lemma drained_append: "drained (bc\<lparr>chain := chain bc @ [b]\<rparr>) bc' \<Longrightarrow> drained bc bc'"
  unfolding drained_def by auto

lemma drained_del:
  "drained bc bc' \<Longrightarrow> drained bc (bc'\<lparr>pending_blocks := filter (\<lambda>p. fst p \<noteq> h) (pending_blocks bc')\<rparr>)"
proof -
  assume d: "drained bc bc'"
  have "drained bc' (bc'\<lparr>pending_blocks := filter (\<lambda>p. fst p \<noteq> h) (pending_blocks bc')\<rparr>)"
    unfolding drained_def
    by (auto intro!: exI [of _ "{h}"] filter_cong)
  with d show ?thesis by (rule drained_trans)
qed

lemma drain_frame:
  "chain bc = [] \<or> previous_hash b = hash (last (chain bc)) \<Longrightarrow>
     drained bc (fst (add_block E n bc b))"
  "drained bc2 (fst (process_pending_blocks E n2 bc2))"
  "drained bc3 (fst (pending_scan E n3 xs bc3))"
proof (induction E n bc b and E n2 bc2 and E n3 xs bc3
       rule: add_block_process_pending_blocks_pending_scan.induct)
  case (1 E bc b)
  show ?case by (simp add: add_block.simps drained_refl)
next
  case (2 E n bc b)
  show ?case
  proof (cases "is_valid E b")
    case False
    then show ?thesis by (simp add: add_block.simps drained_refl)
  next
    case valid: True
    show ?thesis
    proof (cases "chain bc = []")
      case True
      then show ?thesis using valid by (simp add: add_block.simps last_block_def drained_refl)
    next
      case ne: False
      then have lb: "last_block bc = Inr (last (chain bc))"
        by (simp add: last_block_def)
      from ne "2.prems" have link: "previous_hash b = hash (last (chain bc))" by simp
      show ?thesis
      proof (cases "validate E (pow bc) b")
        case False
        then show ?thesis using valid lb link by (simp add: add_block.simps drained_refl)
      next
        case pw: True
        have "drained (bc\<lparr>chain := chain bc @ [b]\<rparr>)
                (fst (process_pending_blocks E n (bc\<lparr>chain := chain bc @ [b]\<rparr>)))"
          using "2.IH" [OF _ lb link] valid pw by simp
        then have d: "drained bc (fst (process_pending_blocks E n (bc\<lparr>chain := chain bc @ [b]\<rparr>)))"
          by (rule drained_append)
        obtain bc' r where
          pp: "process_pending_blocks E n (bc\<lparr>chain := chain bc @ [b]\<rparr>) = (bc', r)"
          by (cases "process_pending_blocks E n (bc\<lparr>chain := chain bc @ [b]\<rparr>)")
        have "fst (add_block E (Suc n) bc b) = bc'"
          using valid lb link pw pp by (cases r) (simp_all add: add_block.simps)
        with d pp show ?thesis by simp
      qed
    qed
  qed
next
  case (3 E bc)
  show ?case by (simp add: process_pending_blocks.simps drained_refl)
next
  case (4 E n bc)
  obtain bc' r where sc: "pending_scan E n (pending_blocks bc) bc = (bc', r)"
    by (cases "pending_scan E n (pending_blocks bc) bc")
  have d': "drained bc bc'"
    using "4.IH"(1) sc by simp
  show ?case
  proof (cases r)
    case (Returned added)
    show ?thesis
    proof (cases added)
      case True
      have "drained bc' (fst (process_pending_blocks E n bc'))"
        using "4.IH"(2) [OF sc [symmetric] Returned True] .
      with d' have "drained bc (fst (process_pending_blocks E n bc'))"
        by (rule drained_trans)
      then show ?thesis using sc Returned True by (simp add: process_pending_blocks.simps)
    next
      case False
      then show ?thesis using sc Returned d' by (simp add: process_pending_blocks.simps)
    qed
  next
    case (Raised e)
    then show ?thesis using sc d' by (simp add: process_pending_blocks.simps)
  next
    case OutOfFuel
    then show ?thesis using sc d' by (simp add: process_pending_blocks.simps)
  qed
next
  case (5 E n bc)
  show ?case by (simp add: pending_scan.simps drained_refl)
next
  case (6 E n block_hash b rest bc)
  show ?case
  proof (cases "chain bc = []")
    case True
    then show ?thesis by (simp add: pending_scan.simps last_block_def drained_refl)
  next
    case ne: False
    then have lb: "last_block bc = Inr (last (chain bc))"
      by (simp add: last_block_def)
    show ?thesis
    proof (cases "previous_hash b = hash (last (chain bc))")
      case False
      have "drained bc (fst (pending_scan E n rest bc))"
        using "6.IH"(3) [OF lb False] .
      then show ?thesis using lb False by (simp add: pending_scan.simps)
    next
      case link: True
      obtain bc' r where ab: "add_block E n bc b = (bc', r)"
        by (cases "add_block E n bc b")
      have d': "drained bc bc'"
        using "6.IH"(1) [OF lb link] link ab by simp
      show ?thesis
      proof (cases r)
        case (Returned ok)
        show ?thesis
        proof (cases ok)
          case True
          from drained_del [OF d', of block_hash]
          show ?thesis using lb link ab Returned True d'
            by (simp add: pending_scan.simps dict_del_def)
        next
          case False
          have "drained bc' (fst (pending_scan E n rest bc'))"
            using "6.IH"(2) [OF lb link ab [symmetric] Returned False] .
          with d' have "drained bc (fst (pending_scan E n rest bc'))"
            by (rule drained_trans)
          then show ?thesis using lb link ab Returned False
            by (simp add: pending_scan.simps)
        qed
      next
        case (Raised e)
        then show ?thesis using lb link ab d' by (simp add: pending_scan.simps)
      next
        case OutOfFuel
        then show ?thesis using lb link ab d' by (simp add: pending_scan.simps)
      qed
    qed
  qed
qed

lemma drained_chain: "drained a b \<Longrightarrow> \<exists>more. chain b = chain a @ more"
  unfolding drained_def by blast

lemma drained_subset: "drained a b \<Longrightarrow> set (pending_blocks b) \<subseteq> set (pending_blocks a)"
  unfolding drained_def by auto

lemma drained_keys:
  "drained a b \<Longrightarrow> k \<notin> fst ` set (pending_blocks a) \<Longrightarrow> k \<notin> fst ` set (pending_blocks b)"
  using drained_subset [of a b] by blast

lemma add_block_True:
  assumes "add_block E n bc b = (bc', Returned True)"
  shows "\<exists>m u. n = Suc m \<and> is_valid E b \<and> chain bc \<noteq> [] \<and>
           previous_hash b = hash (last (chain bc)) \<and> validate E (pow bc) b \<and>
           process_pending_blocks E m (bc\<lparr>chain := chain bc @ [b]\<rparr>) = (bc', Returned u)"
proof (cases n)
  case 0
  with assms show ?thesis by (simp add: add_block.simps)
next
  case (Suc m)
  with assms show ?thesis
    by (auto simp: add_block.simps last_block_def
             split: if_splits prod.splits outcome.splits)
qed

lemma process_Returned:
  assumes "process_pending_blocks E n bc = (bc', Returned u)"
  shows "\<exists>m bc1 added. n = Suc m \<and>
           pending_scan E m (pending_blocks bc) bc = (bc1, Returned added) \<and>
           (if added then process_pending_blocks E m bc1 = (bc', Returned ()) else bc' = bc1)"
proof (cases n)
  case 0
  with assms show ?thesis by (simp add: process_pending_blocks.simps)
next
  case (Suc m)
  with assms show ?thesis
    by (auto simp: process_pending_blocks.simps
             split: if_splits prod.splits outcome.splits)
qed

lemma add_block_rejects:
  assumes "chain bc \<noteq> []" and "previous_hash b = hash (last (chain bc))"
    and "\<not> (is_valid E b \<and> validate E (pow bc) b)"
  shows "add_block E n bc b = (bc, if n = 0 then OutOfFuel else Returned False)"
  using assms by (cases n) (auto simp: add_block.simps last_block_def)

lemma add_block_accepts:
  assumes "chain bc \<noteq> []" and "previous_hash b = hash (last (chain bc))"
    and "is_valid E b" and "validate E (pow bc) b"
  shows "snd (add_block E n bc b) \<noteq> Returned False"
  using assms
  by (cases n) (auto simp: add_block.simps last_block_def split: prod.splits outcome.splits)

lemma scan_skip:
  assumes ne: "chain bc \<noteq> []"
    and pre: "\<forall>p\<in>set pre. \<not> (previous_hash (snd p) = hash (last (chain bc)) \<and>
                 is_valid E (snd p) \<and> validate E (pow bc) (snd p))"
    and r: "pending_scan E n (pre @ rest) bc = (bc', Returned r)"
  shows "pending_scan E n rest bc = (bc', Returned r)"
  using pre r
proof (induction pre)
  case Nil
  then show ?case by simp
next
  case (Cons p pre)
  obtain h b where p: "p = (h, b)" by (cases p)
  have lb: "last_block bc = Inr (last (chain bc))"
    using ne by (simp add: last_block_def)
  have step: "pending_scan E n (pre @ rest) bc = (bc', Returned r)"
  proof (cases "previous_hash b = hash (last (chain bc))")
    case False
    with Cons.prems(2) p lb show ?thesis by (simp add: pending_scan.simps)
  next
    case True
    with Cons.prems(1) p have "\<not> (is_valid E b \<and> validate E (pow bc) b)" by simp
    from add_block_rejects [OF ne True this, of n] Cons.prems(2) p lb True
    show ?thesis
      by (cases "n = 0") (simp_all add: pending_scan.simps)
  qed
  from Cons.IH [OF _ step] Cons.prems(1) show ?case by simp
qed

lemma scan_head:
  assumes ne: "chain bc \<noteq> []" and link: "previous_hash b = hash (last (chain bc))"
    and iv: "is_valid E b" and v: "validate E (pow bc) b"
    and r: "pending_scan E n ((h, b) # rest) bc = (bc', Returned r)"
  shows "r \<and> (\<exists>bc1. add_block E n bc b = (bc1, Returned True) \<and>
           bc' = bc1\<lparr>pending_blocks := filter (\<lambda>p. fst p \<noteq> h) (pending_blocks bc1)\<rparr>)"
proof -
  have lb: "last_block bc = Inr (last (chain bc))"
    using ne by (simp add: last_block_def)
  obtain bc1 out where ab: "add_block E n bc b = (bc1, out)"
    by (cases "add_block E n bc b")
  from add_block_accepts [OF ne link iv v, of n] ab have nf: "out \<noteq> Returned False" by simp
  from r lb link ab nf have out: "out = Returned True"
    by (cases out) (auto simp: pending_scan.simps)
  from r lb link ab out show ?thesis
    by (auto simp: pending_scan.simps dict_del_def split: if_splits)
qed

lemma find_Some_split:
  assumes "find P xs = Some x"
  shows "\<exists>pre post. xs = pre @ x # post \<and> P x \<and> (\<forall>p\<in>set pre. \<not> P p)"
  using assms
proof (induction xs)
  case Nil
  then show ?case by simp
next
  case (Cons y ys)
  show ?case
  proof (cases "P y")
    case True
    with Cons.prems have "x = y" by simp
    with True have "y # ys = [] @ x # ys \<and> P x \<and> (\<forall>p\<in>set []. \<not> P p)" by simp
    then show ?thesis by blast
  next
    case False
    with Cons.prems have "find P ys = Some x" by simp
    from Cons.IH [OF this] obtain pre post where
      "ys = pre @ x # post" "P x" "\<forall>p\<in>set pre. \<not> P p" by blast
    with False have "y # ys = (y # pre) @ x # post \<and> P x \<and> (\<forall>p\<in>set (y # pre). \<not> P p)"
      by simp
    then show ?thesis by blast
  qed
qed

text \<open>
  C6 (as amended).  Pending-block drain.  Let \<open>b1\<close> be the first pending block, in
  insertion order, whose \<open>previous_hash\<close> is \<open>bk.hash\<close> and which passes \<open>is_valid\<close> and
  the chain's \<open>pow.validate\<close>, and \<open>b2\<close> the first pending block whose \<open>previous_hash\<close>
  is \<open>b1.hash\<close> and which passes both.  Then after a successful \<open>add_block(bk)\<close> (the
  call returns true) the chain is the old chain followed by \<open>bk, b1, b2\<close> in this order
  and by what else the drain appended, and neither \<open>b1\<close> nor \<open>b2\<close> is left in the
  pending set: their hashes are no longer keys of it and, the pending set being keyed by
  block hash as \<open>add_block\<close> stores it, no entry holds either block.
\<close>

theorem pending_drain:
  assumes f1: "find (\<lambda>p. previous_hash (snd p) = hash bk \<and> is_valid E (snd p) \<and>
                     validate E (pow bc) (snd p)) (pending_blocks bc) = Some (hash b1, b1)"
    and f2: "find (\<lambda>p. previous_hash (snd p) = hash b1 \<and> is_valid E (snd p) \<and>
                     validate E (pow bc) (snd p)) (pending_blocks bc) = Some (hash b2, b2)"
    and succ: "add_block E fuel bc bk = (bc', Returned True)"
  shows "(\<exists>more. chain bc' = chain bc @ [bk, b1, b2] @ more) \<and>
         hash b1 \<notin> fst ` set (pending_blocks bc') \<and>
         hash b2 \<notin> fst ` set (pending_blocks bc') \<and>
         ((\<forall>p\<in>set (pending_blocks bc). fst p = hash (snd p)) \<longrightarrow>
            b1 \<notin> snd ` set (pending_blocks bc') \<and> b2 \<notin> snd ` set (pending_blocks bc'))"
proof -
  define P where "P = pending_blocks bc"
  from find_Some_split [OF f1] obtain pre1 post1 where split1: "P = pre1 @ (hash b1, b1) # post1"
    and a1: "previous_hash b1 = hash bk \<and> is_valid E b1 \<and> validate E (pow bc) b1"
    and first1: "\<forall>p\<in>set pre1. \<not> (previous_hash (snd p) = hash bk \<and> is_valid E (snd p) \<and>
                   validate E (pow bc) (snd p))"
    unfolding P_def [symmetric] snd_conv by blast
  from find_Some_split [OF f2] obtain pre2 post2 where split2: "P = pre2 @ (hash b2, b2) # post2"
    and a2: "previous_hash b2 = hash b1 \<and> is_valid E b2 \<and> validate E (pow bc) b2"
    and first2: "\<forall>p\<in>set pre2. \<not> (previous_hash (snd p) = hash b1 \<and> is_valid E (snd p) \<and>
                   validate E (pow bc) (snd p))"
    unfolding P_def [symmetric] snd_conv by blast
  define s1 where "s1 = bc\<lparr>chain := chain bc @ [bk]\<rparr>"
  define s2 where "s2 = s1\<lparr>chain := chain s1 @ [b1]\<rparr>"
  define s3 where "s3 = s2\<lparr>chain := chain s2 @ [b2]\<rparr>"
  have ne: "chain s1 \<noteq> []" "chain s2 \<noteq> []"
    and lasts: "last (chain s1) = bk" "last (chain s2) = b1"
    and pends: "pending_blocks s1 = P" "pending_blocks s2 = P" "pending_blocks s3 = P"
    and pows: "pow s1 = pow bc" "pow s2 = pow bc"
    and ch3: "chain s3 = chain bc @ [bk, b1, b2]"
    by (simp_all add: s1_def s2_def s3_def P_def)
  \<comment> \<open>the call for \<open>bk\<close> appends it and drains\<close>
  from add_block_True [OF succ] obtain m u where
    pp1: "process_pending_blocks E m s1 = (bc', Returned u)"
    unfolding s1_def by blast
  from process_Returned [OF pp1] obtain m1 t1 added1 where
    sc1: "pending_scan E m1 P s1 = (t1, Returned added1)"
    and cont1: "if added1 then process_pending_blocks E m1 t1 = (bc', Returned ()) else bc' = t1"
    unfolding pends by blast
  \<comment> \<open>its first scan passes over what does not link or is refused, and reaches \<open>b1\<close>\<close>
  have sc1': "pending_scan E m1 ((hash b1, b1) # post1) s1 = (t1, Returned added1)"
  proof (rule scan_skip [OF ne(1)])
    show "\<forall>p\<in>set pre1. \<not> (previous_hash (snd p) = hash (last (chain s1)) \<and>
            is_valid E (snd p) \<and> validate E (pow s1) (snd p))"
      unfolding lasts pows by (rule first1)
    show "pending_scan E m1 (pre1 @ (hash b1, b1) # post1) s1 = (t1, Returned added1)"
      unfolding split1 [symmetric] by (rule sc1)
  qed
  have lk1: "previous_hash b1 = hash (last (chain s1))" and pv1: "validate E (pow s1) b1"
    and v1: "is_valid E b1"
    unfolding lasts pows using a1 by blast+
  from scan_head [OF ne(1) lk1 v1 pv1 sc1'] obtain u1 where added1: "added1"
    and ab1: "add_block E m1 s1 b1 = (u1, Returned True)"
    and t1: "t1 = u1\<lparr>pending_blocks := filter (\<lambda>p. fst p \<noteq> hash b1) (pending_blocks u1)\<rparr>"
    by blast
  \<comment> \<open>the call for \<open>b1\<close> appends it and drains\<close>
  from add_block_True [OF ab1] obtain m2 u' where
    pp2: "process_pending_blocks E m2 s2 = (u1, Returned u')"
    unfolding s2_def by blast
  from process_Returned [OF pp2] obtain m3 t2 added2 where
    sc2: "pending_scan E m3 P s2 = (t2, Returned added2)"
    and cont2: "if added2 then process_pending_blocks E m3 t2 = (u1, Returned ()) else u1 = t2"
    unfolding pends by blast
  have sc2': "pending_scan E m3 ((hash b2, b2) # post2) s2 = (t2, Returned added2)"
  proof (rule scan_skip [OF ne(2)])
    show "\<forall>p\<in>set pre2. \<not> (previous_hash (snd p) = hash (last (chain s2)) \<and>
            is_valid E (snd p) \<and> validate E (pow s2) (snd p))"
      unfolding lasts pows by (rule first2)
    show "pending_scan E m3 (pre2 @ (hash b2, b2) # post2) s2 = (t2, Returned added2)"
      unfolding split2 [symmetric] by (rule sc2)
  qed
  have lk2: "previous_hash b2 = hash (last (chain s2))" and pv2: "validate E (pow s2) b2"
    and v2: "is_valid E b2"
    unfolding lasts pows using a2 by blast+
  from scan_head [OF ne(2) lk2 v2 pv2 sc2'] obtain u2 where added2: "added2"
    and ab2: "add_block E m3 s2 b2 = (u2, Returned True)"
    and t2: "t2 = u2\<lparr>pending_blocks := filter (\<lambda>p. fst p \<noteq> hash b2) (pending_blocks u2)\<rparr>"
    by blast
  \<comment> \<open>the call for \<open>b2\<close> appends it; what follows only appends and deletes\<close>
  from add_block_True [OF ab2] obtain m4 u'' where
    pp3: "process_pending_blocks E m4 s3 = (u2, Returned u'')"
    unfolding s3_def by blast
  have d3: "drained s3 u2"
    using drain_frame(2) [of s3 E m4] pp3 by simp
  have d2: "drained t2 u1"
    using drain_frame(2) [of t2 E m3] cont2 added2 by simp
  have d1: "drained t1 bc'"
    using drain_frame(2) [of t1 E m1] cont1 added1 by simp
  \<comment> \<open>the chain\<close>
  from drained_chain [OF d3] obtain x3 where "chain u2 = chain s3 @ x3" ..
  then have c2: "chain t2 = chain bc @ [bk, b1, b2] @ x3"
    by (simp add: t2 ch3)
  from drained_chain [OF d2] obtain x2 where "chain u1 = chain t2 @ x2" ..
  with c2 have c1: "chain t1 = chain bc @ [bk, b1, b2] @ (x3 @ x2)"
    by (simp add: t1)
  from drained_chain [OF d1] obtain x1 where "chain bc' = chain t1 @ x1" ..
  with c1 have "chain bc' = chain bc @ [bk, b1, b2] @ (x3 @ x2 @ x1)"
    by simp
  then have chain: "\<exists>more. chain bc' = chain bc @ [bk, b1, b2] @ more" ..
  \<comment> \<open>the pending set\<close>
  have k2: "hash b2 \<notin> fst ` set (pending_blocks t2)"
    by (auto simp: t2)
  have k2': "hash b2 \<notin> fst ` set (pending_blocks u1)"
    by (rule drained_keys [OF d2 k2])
  have k1: "hash b1 \<notin> fst ` set (pending_blocks t1)"
    and k21: "hash b2 \<notin> fst ` set (pending_blocks t1)"
    using k2' by (auto simp: t1)
  have gone: "hash b1 \<notin> fst ` set (pending_blocks bc')"
    "hash b2 \<notin> fst ` set (pending_blocks bc')"
    by (rule drained_keys [OF d1 k1], rule drained_keys [OF d1 k21])
  have "set (pending_blocks bc') \<subseteq> set (pending_blocks t1)"
    by (rule drained_subset [OF d1])
  also have "\<dots> \<subseteq> set (pending_blocks u1)"
    by (auto simp: t1)
  also have "\<dots> \<subseteq> set (pending_blocks t2)"
    by (rule drained_subset [OF d2])
  also have "\<dots> \<subseteq> set (pending_blocks u2)"
    by (auto simp: t2)
  also have "\<dots> \<subseteq> set (pending_blocks s3)"
    by (rule drained_subset [OF d3])
  finally have sub: "set (pending_blocks bc') \<subseteq> set P"
    unfolding pends .
  have absent: "b \<notin> snd ` set (pending_blocks bc')"
    if "hash b \<notin> fst ` set (pending_blocks bc')"
      and keyed: "\<forall>p\<in>set (pending_blocks bc). fst p = hash (snd p)" for b
  proof
    assume "b \<in> snd ` set (pending_blocks bc')"
    then obtain h where h: "(h, b) \<in> set (pending_blocks bc')" by auto
    with sub have "(h, b) \<in> set P" by blast
    with keyed have "h = hash b" unfolding P_def by force
    with h that(1) show False by force
  qed
  from chain gone absent [OF gone(1)] absent [OF gone(2)] show ?thesis by blast
qed

text \<open>
  The call does return when nothing else in the pending set links to the three blocks.
  Let the pending set hold blocks \<open>b1\<close> and \<open>b2\<close> that pass \<open>is_valid\<close> and
  \<open>pow.validate\<close>, with \<open>b1.previous_hash = bk.hash\<close> and \<open>b2.previous_hash = b1.hash\<close>,
  and let no other pending block name the hash of \<open>bk\<close>, \<open>b1\<close> or \<open>b2\<close> as its
  predecessor.  Then \<open>add_block(bk)\<close>, for a \<open>bk\<close> that passes both checks and links to
  the tip, returns true given room for six nested calls, the chain ends in
  \<open>bk, b1, b2\<close>, and the pending set is the old one without \<open>b1\<close> and \<open>b2\<close>.
\<close>

theorem pending_drain_returns:
  assumes ne: "chain bc \<noteq> []"
    and vk: "is_valid E bk" and lk: "previous_hash bk = hash (last (chain bc))"
    and pk: "validate E (pow bc) bk"
    and dist: "distinct (map fst (pending_blocks bc))"
    and in1: "(h1, b1) \<in> set (pending_blocks bc)"
    and in2: "(h2, b2) \<in> set (pending_blocks bc)"
    and v1: "is_valid E b1" and p1: "validate E (pow bc) b1"
    and l1: "previous_hash b1 = hash bk"
    and v2: "is_valid E b2" and p2: "validate E (pow bc) b2"
    and l2: "previous_hash b2 = hash b1"
    and only: "\<forall>p\<in>set (pending_blocks bc).
                 (previous_hash (snd p) = hash bk \<longrightarrow> p = (h1, b1)) \<and>
                 (previous_hash (snd p) = hash b1 \<longrightarrow> p = (h2, b2)) \<and>
                 previous_hash (snd p) \<noteq> hash b2"
    and fuel: "6 \<le> fuel"
  shows "add_block E fuel bc bk =
           (bc\<lparr>chain := chain bc @ [bk, b1, b2],
               pending_blocks :=
                 filter (\<lambda>p. fst p \<noteq> h2 \<and> fst p \<noteq> h1) (pending_blocks bc)\<rparr>,
            Returned True) \<and>
         b1 \<notin> snd ` set (filter (\<lambda>p. fst p \<noteq> h2 \<and> fst p \<noteq> h1) (pending_blocks bc)) \<and>
         b2 \<notin> snd ` set (filter (\<lambda>p. fst p \<noteq> h2 \<and> fst p \<noteq> h1) (pending_blocks bc))"
proof -
  define P where "P = pending_blocks bc"
  define s1 where "s1 = bc\<lparr>chain := chain bc @ [bk]\<rparr>"
  define s2 where "s2 = bc\<lparr>chain := chain bc @ [bk, b1]\<rparr>"
  define s3 where "s3 = bc\<lparr>chain := chain bc @ [bk, b1, b2]\<rparr>"
  define s3' where "s3' = s3\<lparr>pending_blocks := filter (\<lambda>p. fst p \<noteq> h2) P\<rparr>"
  define s4 where "s4 = s3\<lparr>pending_blocks := filter (\<lambda>p. fst p \<noteq> h2 \<and> fst p \<noteq> h1) P\<rparr>"
  from fuel obtain n0 where "fuel = 6 + n0"
    by (auto simp: le_iff_add)
  then have n: "fuel = Suc (Suc (Suc (Suc (Suc (Suc n0)))))"
    by simp
  have onlyP: "\<And>p. p \<in> set P \<Longrightarrow> previous_hash (snd p) = hash bk \<Longrightarrow> p = (h1, b1)"
    "\<And>p. p \<in> set P \<Longrightarrow> previous_hash (snd p) = hash b1 \<Longrightarrow> p = (h2, b2)"
    "\<And>p. p \<in> set P \<Longrightarrow> previous_hash (snd p) \<noteq> hash b2"
    using only unfolding P_def by blast+
  have in1P: "(h1, b1) \<in> set P" and in2P: "(h2, b2) \<in> set P"
    using in1 in2 by (simp_all add: P_def)
  have distP: "distinct (map fst P)" using dist by (simp add: P_def)
  have neq: "h1 \<noteq> h2"
  proof
    assume "h1 = h2"
    with in1P in2P distP have "b1 = b2"
      by (metis eq_key_imp_eq_value)
    with l2 onlyP(3) [OF in2P] show False by simp
  qed
  have ne1: "chain s1 \<noteq> []" and ne2: "chain s2 \<noteq> []" and ne3: "chain s3 \<noteq> []"
    by (simp_all add: s1_def s2_def s3_def)
  have last1: "last (chain s1) = bk" and last2: "last (chain s2) = b1"
    and last3: "last (chain s3) = b2"
    by (simp_all add: s1_def s2_def s3_def)
  have pend: "pending_blocks s1 = P" "pending_blocks s2 = P" "pending_blocks s3 = P"
    by (simp_all add: s1_def s2_def s3_def P_def)
  have pows: "pow s1 = pow bc" "pow s2 = pow bc"
    by (simp_all add: s1_def s2_def)
  have app: "bc\<lparr>chain := chain bc @ [bk]\<rparr> = s1" "s1\<lparr>chain := chain s1 @ [b1]\<rparr> = s2"
    "s2\<lparr>chain := chain s2 @ [b2]\<rparr> = s3"
    by (simp_all add: s1_def s2_def s3_def)
  \<comment> \<open>the innermost call: \<open>b2\<close> is appended and nothing in pending links to it\<close>
  have A: "process_pending_blocks E (Suc k) s3 = (s3, Returned ())" for k
  proof (rule drain_none [OF ne3])
    show "\<forall>p\<in>set (pending_blocks s3). previous_hash (snd p) \<noteq> hash (last (chain s3))"
      unfolding pend last3 using onlyP(3) by blast
  qed
  have A': "add_block E (Suc (Suc k)) s2 b2 = (s3, Returned True)" for k
  proof (rule add_block_links [OF v2 ne2])
    show "previous_hash b2 = hash (last (chain s2))" unfolding last2 by (rule l2)
    show "validate E (pow s2) b2" unfolding pows by (rule p2)
    show "process_pending_blocks E (Suc k) (s2\<lparr>chain := chain s2 @ [b2]\<rparr>) = (s3, Returned ())"
      unfolding app by (rule A)
  qed
  \<comment> \<open>the drain after \<open>b1\<close>: it finds \<open>b2\<close>, removes it, and then finds nothing\<close>
  obtain pre2 post2 where split2: "P = pre2 @ (h2, b2) # post2" "(h2, b2) \<notin> set pre2"
    using split_list_first [OF in2P] by blast
  have pre2: "\<forall>p\<in>set pre2. previous_hash (snd p) \<noteq> hash (last (chain s2))"
  proof
    fix p assume p: "p \<in> set pre2"
    then have "p \<in> set P" by (simp add: split2(1))
    with onlyP(2) [of p] p split2(2) show "previous_hash (snd p) \<noteq> hash (last (chain s2))"
      unfolding last2 by blast
  qed
  have key2: "h2 \<in> fst ` set (pending_blocks s3)"
    unfolding pend using in2P by force
  have scan2: "pending_scan E (Suc (Suc k)) P s2 = (s3', Returned True)" for k
  proof -
    have "previous_hash b2 = hash (last (chain s2))" unfolding last2 by (rule l2)
    from scan_first [OF ne2 pre2 this A' key2, of k post2]
    show ?thesis
      unfolding split2(1) [symmetric] pend s3'_def .
  qed
  have ne3': "chain s3' \<noteq> []" and last3': "last (chain s3') = b2"
    by (simp_all add: s3'_def s3_def)
  have none3': "process_pending_blocks E (Suc k) s3' = (s3', Returned ())" for k
  proof (rule drain_none [OF ne3'])
    show "\<forall>p\<in>set (pending_blocks s3'). previous_hash (snd p) \<noteq> hash (last (chain s3'))"
      unfolding last3' using onlyP(3) by (simp add: s3'_def)
  qed
  have B: "process_pending_blocks E (Suc (Suc (Suc k))) s2 = (s3', Returned ())" for k
    using scan2 [of k] none3' [of "Suc k"]
    by (simp add: process_pending_blocks.simps(2) [of E "Suc (Suc k)" s2] pend)
  have B': "add_block E (Suc (Suc (Suc (Suc k)))) s1 b1 = (s3', Returned True)" for k
  proof (rule add_block_links [OF v1 ne1])
    show "previous_hash b1 = hash (last (chain s1))" unfolding last1 by (rule l1)
    show "validate E (pow s1) b1" unfolding pows by (rule p1)
    show "process_pending_blocks E (Suc (Suc (Suc k))) (s1\<lparr>chain := chain s1 @ [b1]\<rparr>) =
            (s3', Returned ())"
      unfolding app by (rule B)
  qed
  \<comment> \<open>the drain after \<open>bk\<close>\<close>
  obtain pre1 post1 where split1: "P = pre1 @ (h1, b1) # post1" "(h1, b1) \<notin> set pre1"
    using split_list_first [OF in1P] by blast
  have pre1: "\<forall>p\<in>set pre1. previous_hash (snd p) \<noteq> hash (last (chain s1))"
  proof
    fix p assume p: "p \<in> set pre1"
    then have "p \<in> set P" by (simp add: split1(1))
    with onlyP(1) [of p] p split1(2) show "previous_hash (snd p) \<noteq> hash (last (chain s1))"
      unfolding last1 by blast
  qed
  have pend3': "pending_blocks s3' = filter (\<lambda>p. fst p \<noteq> h2) P"
    by (simp add: s3'_def)
  have key1: "h1 \<in> fst ` set (pending_blocks s3')"
    unfolding pend3' using in1P neq by force
  have s4_eq: "s3'\<lparr>pending_blocks := filter (\<lambda>p. fst p \<noteq> h1) (pending_blocks s3')\<rparr> = s4"
    by (simp add: s3'_def s4_def)
  have scan1: "pending_scan E (Suc (Suc (Suc (Suc k)))) P s1 = (s4, Returned True)" for k
  proof -
    have "previous_hash b1 = hash (last (chain s1))" unfolding last1 by (rule l1)
    from scan_first [OF ne1 pre1 this B' key1, of k post1]
    show ?thesis
      unfolding split1(1) [symmetric] s4_eq .
  qed
  have ne4: "chain s4 \<noteq> []" and last4: "last (chain s4) = b2"
    by (simp_all add: s4_def s3_def)
  have none4: "process_pending_blocks E (Suc k) s4 = (s4, Returned ())" for k
  proof (rule drain_none [OF ne4])
    show "\<forall>p\<in>set (pending_blocks s4). previous_hash (snd p) \<noteq> hash (last (chain s4))"
      unfolding last4 using onlyP(3) by (simp add: s4_def)
  qed
  have C: "process_pending_blocks E (Suc (Suc (Suc (Suc (Suc k))))) s1 = (s4, Returned ())" for k
    using scan1 [of k] none4 [of "Suc (Suc (Suc k))"]
    by (simp add: process_pending_blocks.simps(2) [of E "Suc (Suc (Suc (Suc k)))" s1] pend)
  have C': "add_block E fuel bc bk = (s4, Returned True)"
    unfolding n
  proof (rule add_block_links [OF vk ne lk pk])
    show "process_pending_blocks E (Suc (Suc (Suc (Suc (Suc n0)))))
            (bc\<lparr>chain := chain bc @ [bk]\<rparr>) = (s4, Returned ())"
      unfolding app by (rule C)
  qed
  have gone1: "b1 \<notin> snd ` set (filter (\<lambda>p. fst p \<noteq> h2 \<and> fst p \<noteq> h1) P)"
  proof
    assume "b1 \<in> snd ` set (filter (\<lambda>p. fst p \<noteq> h2 \<and> fst p \<noteq> h1) P)"
    then obtain h where h: "(h, b1) \<in> set P" "h \<noteq> h1" by auto
    from onlyP(1) [OF h(1)] l1 h(2) show False by simp
  qed
  have gone2: "b2 \<notin> snd ` set (filter (\<lambda>p. fst p \<noteq> h2 \<and> fst p \<noteq> h1) P)"
  proof
    assume "b2 \<in> snd ` set (filter (\<lambda>p. fst p \<noteq> h2 \<and> fst p \<noteq> h1) P)"
    then obtain h where h: "(h, b2) \<in> set P" "h \<noteq> h2" by auto
    from onlyP(2) [OF h(1)] l2 h(2) show False by simp
  qed
  from C' gone1 gone2 show ?thesis
    by (simp add: s4_def s3_def P_def)
qed

subsection \<open>The drain on concrete blocks\<close>

lemma demo_genesis_val:
  "demo_genesis =
     \<lparr>version = ''1.0'', timestamp = 5, previous_hash = replicate 64 CHR ''0'',
      miner = ''Genesis'', transactions_obj = OwnList,
      transactions = [genesis_tx], nonce = 0, difficulty = 4,
      merkle_root = ''00001100101100110111'', hash = ''00000001001010110100''\<rparr>"
  by code_simp

lemma demo_chain_val:
  "demo_chain =
     \<lparr>bc_difficulty = 4, unconfirmed_obj = 0, unconfirmed_transactions = [],
      chain = [demo_genesis],
      orphan_blocks = [], pending_blocks = [], known_transactions = {},
      pow = \<lparr>pow_difficulty = 4, target = ''0000''\<rparr>\<rparr>"
  by code_simp

lemma demo_block_val:
  "demo_block m prev =
     \<lparr>version = ''1.0'', timestamp = 7, previous_hash = hash prev, miner = m, transactions_obj = OwnList,
      transactions = [demo_tx ''A'' ''B'' 5], nonce = 0, difficulty = 4,
      merkle_root = ''00001001000010001011'',
      hash = calculate_hash demo_env
               \<lparr>version = ''1.0'', timestamp = 7, previous_hash = hash prev, miner = m, transactions_obj = OwnList,
                transactions = [demo_tx ''A'' ''B'' 5], nonce = 0, difficulty = 4,
                merkle_root = ''00001001000010001011'', hash = ''''\<rparr>\<rparr>"
proof -
  have "calculate_merkle_root demo_env [demo_tx ''A'' ''B'' 5] = ''00001001000010001011''"
    by code_simp
  then show ?thesis
    by (simp add: demo_block_def Block_init_def Let_def)
qed

lemma demo_bk_val:
  "demo_bk =
     \<lparr>version = ''1.0'', timestamp = 7, previous_hash = ''00000001001010110100'',
      miner = ''K'', transactions_obj = OwnList,
      transactions = [demo_tx ''A'' ''B'' 5], nonce = 0, difficulty = 4,
      merkle_root = ''00001001000010001011'', hash = ''00000000001111100111''\<rparr>"
proof -
  have "calculate_hash demo_env
          \<lparr>version = ''1.0'', timestamp = 7, previous_hash = ''00000001001010110100'',
           miner = ''K'', transactions_obj = OwnList,
           transactions = [demo_tx ''A'' ''B'' 5], nonce = 0, difficulty = 4,
           merkle_root = ''00001001000010001011'', hash = ''''\<rparr> = ''00000000001111100111''"
    by code_simp
  then show ?thesis
    by (simp add: demo_bk_def demo_block_val demo_genesis_val)
qed

lemma calculate_hash_ignores_hash: "calculate_hash E (b\<lparr>hash := h\<rparr>) = calculate_hash E b"
  by (simp add: calculate_hash_def block_dict_def)

lemma Block_init_hash:
  "hash (Block_init E now m obj txs prev ts n d) =
     calculate_hash E (Block_init E now m obj txs prev ts n d)"
  by (simp add: Block_init_def Let_def calculate_hash_def block_dict_def)

lemma toy_digest_prefix: "startswith (toy_digest s) (zeros 4)"
  by (simp add: toy_digest_def startswith_def zeros_def eval_nat_numeral)

lemma demo_calculate_hash_prefix: "startswith (calculate_hash demo_env b) (zeros 4)"
  by (simp add: calculate_hash_def hash_data_def demo_env_def toy_digest_prefix)

lemma demo_block_is_valid: "is_valid demo_env (demo_block m prev)"
proof -
  have "hash (demo_block m prev) = calculate_hash demo_env (demo_block m prev)"
    unfolding demo_block_def by (rule Block_init_hash)
  moreover have "difficulty (demo_block m prev) = 4"
    by (simp add: demo_block_def Block_init_def Let_def)
  moreover have "list_all isinstance_Transaction (transactions (demo_block m prev))"
    by (simp add: demo_block_def Block_init_def Let_def demo_tx_def)
  ultimately show ?thesis
    using demo_calculate_hash_prefix [of "demo_block m prev"]
    by (simp add: is_valid_def)
qed

lemma demo_block_validate:
  "validate demo_env \<lparr>pow_difficulty = 4, target = ''0000''\<rparr> (demo_block m prev)"
proof -
  have "hash (demo_block m prev) = calculate_hash demo_env (demo_block m prev)"
    unfolding demo_block_def by (rule Block_init_hash)
  moreover have "zeros 4 = ''0000''"
    by (simp add: zeros_def eval_nat_numeral)
  ultimately show ?thesis
    using demo_calculate_hash_prefix [of "demo_block m prev"]
    by (simp add: validate_def Let_def)
qed

lemma demo_hashes:
  "hash demo_genesis = ''00000001001010110100''"
  "hash demo_bk = ''00000000001111100111''"
  "hash demo_fork = ''00001010111000101010''"
  "hash demo_b1 = ''00000110001100101000''"
  "hash demo_b2 = ''00000001010110101101''"
proof -
  show g: "hash demo_genesis = ''00000001001010110100''"
    by (simp add: demo_genesis_val)
  show k: "hash demo_bk = ''00000000001111100111''"
    by (simp add: demo_bk_val)
  have "calculate_hash demo_env
          \<lparr>version = ''1.0'', timestamp = 7, previous_hash = ''00000000001111100111'',
           miner = ''X'', transactions_obj = OwnList,
           transactions = [demo_tx ''A'' ''B'' 5], nonce = 0, difficulty = 4,
           merkle_root = ''00001001000010001011'', hash = ''''\<rparr> = ''00001010111000101010''"
    by code_simp
  then show "hash demo_fork = ''00001010111000101010''"
    by (simp add: demo_fork_def demo_block_val k)
  have "calculate_hash demo_env
          \<lparr>version = ''1.0'', timestamp = 7, previous_hash = ''00000000001111100111'',
           miner = ''N'', transactions_obj = OwnList,
           transactions = [demo_tx ''A'' ''B'' 5], nonce = 0, difficulty = 4,
           merkle_root = ''00001001000010001011'', hash = ''''\<rparr> = ''00000110001100101000''"
    by code_simp
  then show b1: "hash demo_b1 = ''00000110001100101000''"
    by (simp add: demo_b1_def demo_block_val k)
  have "calculate_hash demo_env
          \<lparr>version = ''1.0'', timestamp = 7, previous_hash = ''00000110001100101000'',
           miner = ''O'', transactions_obj = OwnList,
           transactions = [demo_tx ''A'' ''B'' 5], nonce = 0, difficulty = 4,
           merkle_root = ''00001001000010001011'', hash = ''''\<rparr> = ''00000001010110101101''"
    by code_simp
  then show "hash demo_b2 = ''00000001010110101101''"
    by (simp add: demo_b2_def demo_block_val b1)
qed

lemma demo_links:
  "previous_hash demo_bk = hash demo_genesis"
  "previous_hash demo_fork = hash demo_bk"
  "previous_hash demo_b1 = hash demo_bk"
  "previous_hash demo_b2 = hash demo_b1"
  by (simp_all add: demo_bk_def demo_fork_def demo_b1_def demo_b2_def demo_block_val)

lemma demo_valid:
  "is_valid demo_env demo_bk" "is_valid demo_env demo_fork"
  "is_valid demo_env demo_b1" "is_valid demo_env demo_b2"
  by (simp_all add: demo_bk_def demo_fork_def demo_b1_def demo_b2_def demo_block_is_valid)

lemma demo_pow:
  "validate demo_env \<lparr>pow_difficulty = 4, target = ''0000''\<rparr> demo_bk"
  "validate demo_env \<lparr>pow_difficulty = 4, target = ''0000''\<rparr> demo_fork"
  "validate demo_env \<lparr>pow_difficulty = 4, target = ''0000''\<rparr> demo_b1"
  "validate demo_env \<lparr>pow_difficulty = 4, target = ''0000''\<rparr> demo_b2"
  by (simp_all add: demo_bk_def demo_fork_def demo_b1_def demo_b2_def demo_block_validate)

lemma demo_block_passed: "as_passed bc (demo_block m prev) = demo_block m prev"
  by (simp add: as_passed_def demo_block_val)

lemma demo_passed:
  "as_passed bc demo_bk = demo_bk" "as_passed bc demo_fork = demo_fork"
  "as_passed bc demo_b1 = demo_b1" "as_passed bc demo_b2 = demo_b2"
  by (simp_all add: demo_bk_def demo_fork_def demo_b1_def demo_b2_def demo_block_passed)

lemmas demo_step =
  add_block.simps process_pending_blocks.simps pending_scan.simps last_block_def
  dict_del_def run_def demo_chain_val demo_valid demo_pow demo_links demo_hashes
  demo_passed eval_nat_numeral

lemma fork_state_val:
  "fork_state =
     demo_chain\<lparr>pending_blocks :=
       [(hash demo_fork, demo_fork), (hash demo_b1, demo_b1), (hash demo_b2, demo_b2)]\<rparr>"
  by (simp add: fork_state_def demo_step)

lemma drain_state_val:
  "drain_state =
     demo_chain\<lparr>pending_blocks := [(hash demo_b2, demo_b2), (hash demo_b1, demo_b1)]\<rparr>"
  by (simp add: drain_state_def demo_step)

lemma fork_result:
  "add_block demo_env 9 fork_state demo_bk =
     (fork_state\<lparr>chain := [demo_genesis, demo_bk, demo_fork],
         pending_blocks := [(hash demo_b1, demo_b1), (hash demo_b2, demo_b2)]\<rparr>,
      Returned True)"
  by (simp add: fork_state_val demo_step)

lemma demo_b3_facts:
  "hash demo_b3 = ''00001101010011000000''"
  "previous_hash demo_b3 = hash demo_b2"
  "is_valid demo_env demo_b3"
  "validate demo_env \<lparr>pow_difficulty = 4, target = ''0000''\<rparr> demo_b3"
  "as_passed bc demo_b3 = demo_b3"
proof -
  have "calculate_hash demo_env
          \<lparr>version = ''1.0'', timestamp = 7, previous_hash = ''00000001010110101101'',
           miner = ''P'', transactions_obj = OwnList,
           transactions = [demo_tx ''A'' ''B'' 5], nonce = 0, difficulty = 4,
           merkle_root = ''00001001000010001011'', hash = ''''\<rparr> = ''00001101010011000000''"
    by code_simp
  then show "hash demo_b3 = ''00001101010011000000''"
    by (simp add: demo_b3_def demo_block_val demo_hashes)
  show "previous_hash demo_b3 = hash demo_b2"
    by (simp add: demo_b3_def demo_block_val)
  show "is_valid demo_env demo_b3"
    by (simp add: demo_b3_def demo_block_is_valid)
  show "validate demo_env \<lparr>pow_difficulty = 4, target = ''0000''\<rparr> demo_b3"
    by (simp add: demo_b3_def demo_block_validate)
  show "as_passed bc demo_b3 = demo_b3"
    by (simp add: demo_b3_def demo_block_passed)
qed

lemma busy_state_val:
  "busy_state =
     demo_chain\<lparr>pending_blocks :=
       [(hash demo_b1, demo_b1), (hash demo_fork, demo_fork), (hash demo_b3, demo_b3),
        (hash demo_b2, demo_b2)]\<rparr>"
  by (simp add: busy_state_def demo_step demo_b3_facts)

lemma busy_result:
  "add_block demo_env 12 busy_state demo_bk =
     (busy_state\<lparr>chain := [demo_genesis, demo_bk, demo_b1, demo_b2, demo_b3],
         pending_blocks := [(hash demo_fork, demo_fork)]\<rparr>,
      Returned True)"
  by (simp add: busy_state_val demo_step demo_b3_facts)

lemma weak_genesis_val:
  "weak_genesis =
     \<lparr>version = ''1.0'', timestamp = 5, previous_hash = replicate 64 CHR ''0'',
      miner = ''Genesis'', transactions_obj = OwnList, transactions = [genesis_tx],
      nonce = 0, difficulty = 5,
      merkle_root = ''00001100101100110111'', hash = ''00000001000110110100''\<rparr>"
  by code_simp

lemma chain5_val:
  "chain5 =
     \<lparr>bc_difficulty = 5, unconfirmed_obj = 0, unconfirmed_transactions = [],
      chain = [weak_genesis],
      orphan_blocks = [], pending_blocks = [], known_transactions = {},
      pow = \<lparr>pow_difficulty = 5, target = ''00000''\<rparr>\<rparr>"
  by code_simp

lemma weak_hashes:
  "hash weak_genesis = ''00000001000110110100''"
  "hash weak_bk = ''00000000001111110011''"
  "hash weak_b1 = ''00001001001100101000''"
  "hash weak_b2 = ''00000001000111101101''"
proof -
  show g: "hash weak_genesis = ''00000001000110110100''"
    by (simp add: weak_genesis_val)
  have "calculate_hash demo_env
          \<lparr>version = ''1.0'', timestamp = 7, previous_hash = ''00000001000110110100'',
           miner = ''K'', transactions_obj = OwnList,
           transactions = [demo_tx ''A'' ''B'' 5], nonce = 0, difficulty = 4,
           merkle_root = ''00001001000010001011'', hash = ''''\<rparr> = ''00000000001111110011''"
    by code_simp
  then show k: "hash weak_bk = ''00000000001111110011''"
    by (simp add: weak_bk_def demo_block_val g)
  have "calculate_hash demo_env
          \<lparr>version = ''1.0'', timestamp = 7, previous_hash = ''00000000001111110011'',
           miner = ''N'', transactions_obj = OwnList,
           transactions = [demo_tx ''A'' ''B'' 5], nonce = 0, difficulty = 4,
           merkle_root = ''00001001000010001011'', hash = ''''\<rparr> = ''00001001001100101000''"
    by code_simp
  then show b1: "hash weak_b1 = ''00001001001100101000''"
    by (simp add: weak_b1_def demo_block_val k)
  have "calculate_hash demo_env
          \<lparr>version = ''1.0'', timestamp = 7, previous_hash = ''00001001001100101000'',
           miner = ''O'', transactions_obj = OwnList,
           transactions = [demo_tx ''A'' ''B'' 5], nonce = 0, difficulty = 4,
           merkle_root = ''00001001000010001011'', hash = ''''\<rparr> = ''00000001000111101101''"
    by code_simp
  then show "hash weak_b2 = ''00000001000111101101''"
    by (simp add: weak_b2_def demo_block_val b1)
qed

lemma weak_links:
  "previous_hash weak_bk = hash weak_genesis"
  "previous_hash weak_b1 = hash weak_bk"
  "previous_hash weak_b2 = hash weak_b1"
  by (simp_all add: weak_bk_def weak_b1_def weak_b2_def demo_block_val)

lemma weak_valid:
  "is_valid demo_env weak_bk" "is_valid demo_env weak_b1" "is_valid demo_env weak_b2"
  by (simp_all add: weak_bk_def weak_b1_def weak_b2_def demo_block_is_valid)

lemma weak_passed:
  "as_passed bc weak_bk = weak_bk" "as_passed bc weak_b1 = weak_b1" "as_passed bc weak_b2 = weak_b2"
  by (simp_all add: weak_bk_def weak_b1_def weak_b2_def demo_block_passed)

lemma weak_pow:
  "validate demo_env \<lparr>pow_difficulty = 5, target = ''00000''\<rparr> weak_bk"
  "\<not> validate demo_env \<lparr>pow_difficulty = 5, target = ''00000''\<rparr> weak_b1"
proof -
  have "hash weak_bk = calculate_hash demo_env weak_bk" "hash weak_b1 = calculate_hash demo_env weak_b1"
    unfolding weak_bk_def weak_b1_def demo_block_def by (rule Block_init_hash)+
  then have c: "calculate_hash demo_env weak_bk = ''00000000001111110011''"
    "calculate_hash demo_env weak_b1 = ''00001001001100101000''"
    by (simp_all add: weak_hashes)
  show "validate demo_env \<lparr>pow_difficulty = 5, target = ''00000''\<rparr> weak_bk"
    by (simp add: validate_def Let_def c weak_hashes startswith_def)
  show "\<not> validate demo_env \<lparr>pow_difficulty = 5, target = ''00000''\<rparr> weak_b1"
    by (simp add: validate_def Let_def c weak_hashes startswith_def)
qed

lemmas weak_step =
  add_block.simps process_pending_blocks.simps pending_scan.simps last_block_def
  dict_del_def run_def chain5_val weak_valid weak_pow weak_links weak_hashes
  weak_passed eval_nat_numeral

lemma weak_state_val:
  "weak_state = chain5\<lparr>pending_blocks := [(hash weak_b1, weak_b1), (hash weak_b2, weak_b2)]\<rparr>"
  by (simp add: weak_state_def weak_step)

lemma weak_result:
  "add_block demo_env 9 weak_state weak_bk =
     (weak_state\<lparr>chain := [weak_genesis, weak_bk]\<rparr>, Returned True)"
  by (simp add: weak_state_val weak_step)

text \<open>
  C6 as stated fails in two ways.  First, when a competing block is pending:
  \<open>demo_fork\<close> also links to \<open>demo_bk\<close> and was received before \<open>demo_b1\<close>.  The drain
  after \<open>add_block(demo_bk)\<close> appends \<open>demo_fork\<close>; \<open>demo_b1\<close> and \<open>demo_b2\<close>, both
  valid and correctly linked, stay in the pending set and are not in the chain.  Second,
  when the pending blocks pass \<open>is_valid\<close>, which admits them to the pending set, and not
  the chain's \<open>pow.validate\<close>: \<open>weak_b1\<close> and \<open>weak_b2\<close> are correctly linked behind
  \<open>weak_bk\<close>, and after the successful \<open>add_block(weak_bk)\<close> both are still pending.
\<close>

theorem pending_drain_counterexample:
  "(hash demo_b1, demo_b1) \<in> set (pending_blocks fork_state) \<and>
   (hash demo_b2, demo_b2) \<in> set (pending_blocks fork_state) \<and>
   is_valid demo_env demo_b1 \<and> validate demo_env (pow fork_state) demo_b1 \<and>
   is_valid demo_env demo_b2 \<and> validate demo_env (pow fork_state) demo_b2 \<and>
   previous_hash demo_b1 = hash demo_bk \<and> previous_hash demo_b2 = hash demo_b1 \<and>
   add_block demo_env 9 fork_state demo_bk =
     (fork_state\<lparr>chain := [demo_genesis, demo_bk, demo_fork],
         pending_blocks := [(hash demo_b1, demo_b1), (hash demo_b2, demo_b2)]\<rparr>,
      Returned True) \<and>
   (hash weak_b1, weak_b1) \<in> set (pending_blocks weak_state) \<and>
   (hash weak_b2, weak_b2) \<in> set (pending_blocks weak_state) \<and>
   is_valid demo_env weak_b1 \<and> is_valid demo_env weak_b2 \<and>
   \<not> validate demo_env (pow weak_state) weak_b1 \<and>
   previous_hash weak_b1 = hash weak_bk \<and> previous_hash weak_b2 = hash weak_b1 \<and>
   add_block demo_env 9 weak_state weak_bk =
     (weak_state\<lparr>chain := [weak_genesis, weak_bk]\<rparr>, Returned True)"
proof -
  have "pow fork_state = \<lparr>pow_difficulty = 4, target = ''0000''\<rparr>"
    by (simp add: fork_state_val demo_chain_val)
  moreover have "(hash demo_b1, demo_b1) \<in> set (pending_blocks fork_state)"
    and "(hash demo_b2, demo_b2) \<in> set (pending_blocks fork_state)"
    by (simp_all add: fork_state_val)
  ultimately have first: "(hash demo_b1, demo_b1) \<in> set (pending_blocks fork_state) \<and>
     (hash demo_b2, demo_b2) \<in> set (pending_blocks fork_state) \<and>
     is_valid demo_env demo_b1 \<and> validate demo_env (pow fork_state) demo_b1 \<and>
     is_valid demo_env demo_b2 \<and> validate demo_env (pow fork_state) demo_b2 \<and>
     previous_hash demo_b1 = hash demo_bk \<and> previous_hash demo_b2 = hash demo_b1 \<and>
     add_block demo_env 9 fork_state demo_bk =
       (fork_state\<lparr>chain := [demo_genesis, demo_bk, demo_fork],
           pending_blocks := [(hash demo_b1, demo_b1), (hash demo_b2, demo_b2)]\<rparr>,
        Returned True)"
    using demo_valid demo_pow demo_links fork_result by simp
  have "pow weak_state = \<lparr>pow_difficulty = 5, target = ''00000''\<rparr>"
    by (simp add: weak_state_val chain5_val)
  moreover have "(hash weak_b1, weak_b1) \<in> set (pending_blocks weak_state)"
    and "(hash weak_b2, weak_b2) \<in> set (pending_blocks weak_state)"
    by (simp_all add: weak_state_val)
  ultimately have second: "(hash weak_b1, weak_b1) \<in> set (pending_blocks weak_state) \<and>
     (hash weak_b2, weak_b2) \<in> set (pending_blocks weak_state) \<and>
     is_valid demo_env weak_b1 \<and> is_valid demo_env weak_b2 \<and>
     \<not> validate demo_env (pow weak_state) weak_b1 \<and>
     previous_hash weak_b1 = hash weak_bk \<and> previous_hash weak_b2 = hash weak_b1 \<and>
     add_block demo_env 9 weak_state weak_bk =
       (weak_state\<lparr>chain := [weak_genesis, weak_bk]\<rparr>, Returned True)"
    using weak_valid weak_pow weak_links weak_result by simp
  from first second show ?thesis by blast
qed

text \<open>
  The amended C6 at a concrete state.  The pending set holds, in this order, \<open>demo_b1\<close>,
  the competitor \<open>demo_fork\<close> received after it, \<open>demo_b3\<close> (a successor of \<open>demo_b2\<close>) and
  \<open>demo_b2\<close>.  After \<open>add_block(demo_bk)\<close> the chain is the genesis block followed by
  \<open>demo_bk\<close>, \<open>demo_b1\<close>, \<open>demo_b2\<close>, \<open>demo_b3\<close>, and only \<open>demo_fork\<close> is pending.
\<close>

theorem pending_drain_witness:
  "list_all (\<lambda>p. fst p = hash (snd p)) (pending_blocks busy_state) \<and>
   find (\<lambda>p. previous_hash (snd p) = hash demo_bk \<and> is_valid demo_env (snd p) \<and>
              validate demo_env (pow busy_state) (snd p)) (pending_blocks busy_state) =
     Some (hash demo_b1, demo_b1) \<and>
   find (\<lambda>p. previous_hash (snd p) = hash demo_b1 \<and> is_valid demo_env (snd p) \<and>
              validate demo_env (pow busy_state) (snd p)) (pending_blocks busy_state) =
     Some (hash demo_b2, demo_b2) \<and>
   add_block demo_env 12 busy_state demo_bk =
     (busy_state\<lparr>chain := [demo_genesis, demo_bk, demo_b1, demo_b2, demo_b3],
         pending_blocks := [(hash demo_fork, demo_fork)]\<rparr>,
      Returned True) \<and>
   (\<exists>more. [demo_genesis, demo_bk, demo_b1, demo_b2, demo_b3] =
              chain busy_state @ [demo_bk, demo_b1, demo_b2] @ more) \<and>
   hash demo_b1 \<notin> fst ` set [(hash demo_fork, demo_fork)] \<and>
   hash demo_b2 \<notin> fst ` set [(hash demo_fork, demo_fork)] \<and>
   demo_b1 \<notin> snd ` set [(hash demo_fork, demo_fork)] \<and>
   demo_b2 \<notin> snd ` set [(hash demo_fork, demo_fork)]"
proof -
  have pw: "pow busy_state = \<lparr>pow_difficulty = 4, target = ''0000''\<rparr>"
    by (simp add: busy_state_val demo_chain_val)
  have keyed: "\<forall>p\<in>set (pending_blocks busy_state). fst p = hash (snd p)"
    by (simp add: busy_state_val)
  have f1: "find (\<lambda>p. previous_hash (snd p) = hash demo_bk \<and> is_valid demo_env (snd p) \<and>
              validate demo_env (pow busy_state) (snd p)) (pending_blocks busy_state) =
     Some (hash demo_b1, demo_b1)"
    unfolding pw
    by (simp add: busy_state_val demo_links demo_valid demo_pow demo_hashes demo_b3_facts)
  have f2: "find (\<lambda>p. previous_hash (snd p) = hash demo_b1 \<and> is_valid demo_env (snd p) \<and>
              validate demo_env (pow busy_state) (snd p)) (pending_blocks busy_state) =
     Some (hash demo_b2, demo_b2)"
    unfolding pw
    by (simp add: busy_state_val demo_links demo_valid demo_pow demo_hashes demo_b3_facts)
  from pending_drain [OF f1 f2 busy_result] show ?thesis
    using keyed f1 f2 busy_result by (simp add: list_all_iff)
qed

text \<open>The drain without competitors at a concrete state: \<open>demo_b2\<close> and \<open>demo_b1\<close> pending.\<close>

theorem pending_drain_returns_witness:
  "chain drain_state \<noteq> [] \<and>
   (hash demo_b1, demo_b1) \<in> set (pending_blocks drain_state) \<and>
   (hash demo_b2, demo_b2) \<in> set (pending_blocks drain_state) \<and>
   add_block demo_env 6 drain_state demo_bk =
     (drain_state\<lparr>chain := chain drain_state @ [demo_bk, demo_b1, demo_b2],
         pending_blocks := filter (\<lambda>p. fst p \<noteq> hash demo_b2 \<and> fst p \<noteq> hash demo_b1)
                             (pending_blocks drain_state)\<rparr>,
      Returned True) \<and>
   filter (\<lambda>p. fst p \<noteq> hash demo_b2 \<and> fst p \<noteq> hash demo_b1) (pending_blocks drain_state) = []"
proof -
  have pw: "pow drain_state = \<lparr>pow_difficulty = 4, target = ''0000''\<rparr>"
    by (simp add: drain_state_val demo_chain_val)
  have ne: "chain drain_state \<noteq> []"
    by (simp add: drain_state_val demo_chain_val)
  have lk: "previous_hash demo_bk = hash (last (chain drain_state))"
    by (simp add: drain_state_val demo_chain_val demo_links)
  have pk: "validate demo_env (pow drain_state) demo_bk"
    and p1: "validate demo_env (pow drain_state) demo_b1"
    and p2: "validate demo_env (pow drain_state) demo_b2"
    unfolding pw by (rule demo_pow)+
  have dist: "distinct (map fst (pending_blocks drain_state))"
    by (simp add: drain_state_val demo_hashes)
  have in1: "(hash demo_b1, demo_b1) \<in> set (pending_blocks drain_state)"
    and in2: "(hash demo_b2, demo_b2) \<in> set (pending_blocks drain_state)"
    by (simp_all add: drain_state_val)
  have only: "\<forall>p\<in>set (pending_blocks drain_state).
                 (previous_hash (snd p) = hash demo_bk \<longrightarrow> p = (hash demo_b1, demo_b1)) \<and>
                 (previous_hash (snd p) = hash demo_b1 \<longrightarrow> p = (hash demo_b2, demo_b2)) \<and>
                 previous_hash (snd p) \<noteq> hash demo_b2"
    by (simp add: drain_state_val demo_links demo_hashes)
  have empty: "filter (\<lambda>p. fst p \<noteq> hash demo_b2 \<and> fst p \<noteq> hash demo_b1)
                 (pending_blocks drain_state) = []"
    by (simp add: drain_state_val)
  from pending_drain_returns [OF ne demo_valid(1) lk pk dist in1 in2 demo_valid(3) p1 demo_links(3)
         demo_valid(4) p2 demo_links(4) only order_refl]
  show ?thesis
    using ne in1 in2 empty by blast
qed

subsection \<open>The holders of the mempool list agree\<close>

lemma set_dict_set: "snd ` set (dict_set k v kv) \<subseteq> insert v (snd ` set kv)"
  by (induction kv) (fastforce split: if_splits)+

lemma drain_blocks:
  "state_blocks (fst (add_block E n bc b)) \<subseteq> insert b (state_blocks bc) \<and>
   same_mempool bc (fst (add_block E n bc b))"
  "state_blocks (fst (process_pending_blocks E n2 bc2)) \<subseteq> state_blocks bc2 \<and>
   same_mempool bc2 (fst (process_pending_blocks E n2 bc2))"
  "state_blocks (fst (pending_scan E n3 xs bc3)) \<subseteq> state_blocks bc3 \<union> snd ` set xs \<and>
   same_mempool bc3 (fst (pending_scan E n3 xs bc3))"
proof (induction E n bc b and E n2 bc2 and E n3 xs bc3
       rule: add_block_process_pending_blocks_pending_scan.induct)
  case (1 E bc b)
  show ?case by (auto simp: add_block.simps same_mempool_def)
next
  case (2 E n bc b)
  show ?case
  proof (cases "is_valid E b")
    case False
    then show ?thesis by (auto simp: add_block.simps same_mempool_def)
  next
    case valid: True
    show ?thesis
    proof (cases "chain bc = []")
      case True
      then show ?thesis using valid
        by (auto simp: add_block.simps last_block_def same_mempool_def)
    next
      case ne: False
      then have lb: "last_block bc = Inr (last (chain bc))"
        by (simp add: last_block_def)
      show ?thesis
      proof (cases "previous_hash b = hash (last (chain bc))")
        case False
        have "state_blocks (bc\<lparr>pending_blocks := dict_set (hash b) b (pending_blocks bc)\<rparr>)
                \<subseteq> insert b (state_blocks bc)"
          using set_dict_set [of "hash b" b "pending_blocks bc"]
          by (auto simp: state_blocks_def)
        then show ?thesis using valid lb False
          by (simp add: add_block.simps same_mempool_def)
      next
        case link: True
        show ?thesis
        proof (cases "validate E (pow bc) b")
          case False
          then show ?thesis using valid lb link
            by (auto simp: add_block.simps same_mempool_def)
        next
          case pw: True
          define s where "s = bc\<lparr>chain := chain bc @ [b]\<rparr>"
          have IH: "state_blocks (fst (process_pending_blocks E n s)) \<subseteq> state_blocks s \<and>
                    same_mempool s (fst (process_pending_blocks E n s))"
            unfolding s_def using "2.IH" [OF _ lb link] valid pw by simp
          have s: "state_blocks s = insert b (state_blocks bc)"
            "same_mempool s x = same_mempool bc x" for x
            by (auto simp: s_def state_blocks_def same_mempool_def)
          obtain bc' r where pp: "process_pending_blocks E n s = (bc', r)"
            by (cases "process_pending_blocks E n s")
          have "fst (add_block E (Suc n) bc b) = bc'"
            using valid lb link pw pp unfolding s_def
            by (cases r) (simp_all add: add_block.simps)
          with IH pp s show ?thesis by simp
        qed
      qed
    qed
  qed
next
  case (3 E bc)
  show ?case by (auto simp: process_pending_blocks.simps same_mempool_def)
next
  case (4 E n bc)
  obtain bc' r where sc: "pending_scan E n (pending_blocks bc) bc = (bc', r)"
    by (cases "pending_scan E n (pending_blocks bc) bc")
  have "state_blocks bc' \<subseteq> state_blocks bc \<union> snd ` set (pending_blocks bc)"
    and m': "same_mempool bc bc'"
    using "4.IH"(1) sc by simp_all
  then have d': "state_blocks bc' \<subseteq> state_blocks bc"
    by (auto simp: state_blocks_def)
  show ?case
  proof (cases r)
    case (Returned added)
    show ?thesis
    proof (cases added)
      case True
      have "state_blocks (fst (process_pending_blocks E n bc')) \<subseteq> state_blocks bc' \<and>
            same_mempool bc' (fst (process_pending_blocks E n bc'))"
        using "4.IH"(2) [OF sc [symmetric] Returned True] .
      with d' m' have "state_blocks (fst (process_pending_blocks E n bc')) \<subseteq> state_blocks bc \<and>
            same_mempool bc (fst (process_pending_blocks E n bc'))"
        by (auto simp: same_mempool_def)
      then show ?thesis using sc Returned True by (simp add: process_pending_blocks.simps)
    next
      case False
      then show ?thesis using sc Returned d' m' by (simp add: process_pending_blocks.simps)
    qed
  next
    case (Raised e)
    then show ?thesis using sc d' m' by (simp add: process_pending_blocks.simps)
  next
    case OutOfFuel
    then show ?thesis using sc d' m' by (simp add: process_pending_blocks.simps)
  qed
next
  case (5 E n bc)
  show ?case by (auto simp: pending_scan.simps same_mempool_def)
next
  case (6 E n block_hash b rest bc)
  show ?case
  proof (cases "chain bc = []")
    case True
    then show ?thesis by (auto simp: pending_scan.simps last_block_def same_mempool_def)
  next
    case ne: False
    then have lb: "last_block bc = Inr (last (chain bc))"
      by (simp add: last_block_def)
    show ?thesis
    proof (cases "previous_hash b = hash (last (chain bc))")
      case False
      have "state_blocks (fst (pending_scan E n rest bc)) \<subseteq> state_blocks bc \<union> snd ` set rest \<and>
            same_mempool bc (fst (pending_scan E n rest bc))"
        using "6.IH"(3) [OF lb False] .
      then show ?thesis using lb False by (auto simp: pending_scan.simps)
    next
      case link: True
      obtain bc' r where ab: "add_block E n bc b = (bc', r)"
        by (cases "add_block E n bc b")
      have d': "state_blocks bc' \<subseteq> insert b (state_blocks bc)" and m': "same_mempool bc bc'"
        using "6.IH"(1) [OF lb link] ab by simp_all
      show ?thesis
      proof (cases r)
        case (Returned ok)
        show ?thesis
        proof (cases ok)
          case True
          have "state_blocks (bc'\<lparr>pending_blocks := filter (\<lambda>p. fst p \<noteq> block_hash)
                  (pending_blocks bc')\<rparr>) \<subseteq> state_blocks bc'"
            by (auto simp: state_blocks_def)
          with d' have "state_blocks (bc'\<lparr>pending_blocks := filter (\<lambda>p. fst p \<noteq> block_hash)
                  (pending_blocks bc')\<rparr>) \<subseteq> insert b (state_blocks bc)"
            by blast
          then show ?thesis using lb link ab Returned True d' m'
            by (auto simp: pending_scan.simps dict_del_def same_mempool_def)
        next
          case False
          have "state_blocks (fst (pending_scan E n rest bc')) \<subseteq> state_blocks bc' \<union> snd ` set rest \<and>
                same_mempool bc' (fst (pending_scan E n rest bc'))"
            using "6.IH"(2) [OF lb link ab [symmetric] Returned False] .
          with d' m' have "state_blocks (fst (pending_scan E n rest bc')) \<subseteq>
                state_blocks bc \<union> snd ` set ((block_hash, b) # rest) \<and>
                same_mempool bc (fst (pending_scan E n rest bc'))"
            by (auto simp: same_mempool_def)
          then show ?thesis using lb link ab Returned False
            by (simp add: pending_scan.simps)
        qed
      next
        case (Raised e)
        then show ?thesis using lb link ab d' m' by (auto simp: pending_scan.simps)
      next
        case OutOfFuel
        then show ?thesis using lb link ab d' m' by (auto simp: pending_scan.simps)
      qed
    qed
  qed
qed

lemma as_passed_agrees:
  "transactions_obj (as_passed bc b) = MempoolList (unconfirmed_obj bc) \<longrightarrow>
   transactions (as_passed bc b) = unconfirmed_transactions bc"
  by (simp add: as_passed_def)

lemma add_block_agree:
  assumes a: "aliases_agree bc"
    and b: "transactions_obj b = MempoolList (unconfirmed_obj bc) \<longrightarrow>
            transactions b = unconfirmed_transactions bc"
  shows "aliases_agree (fst (add_block E n bc b))"
  using drain_blocks(1) [of E n bc b] a b
  unfolding aliases_agree_def same_mempool_def by auto

lemma mine_block_unchanged: "fst (mine_block E fuel now bc m) = bc"
  by (simp add: mine_block_def mine_def block_height_def Let_def split: sum.splits)

lemma apply_operation_agree:
  assumes a: "aliases_agree bc"
  shows "aliases_agree (apply_operation E fuel bc op)"
proof (cases op)
  case (AddTransaction tx)
  show ?thesis
  proof (cases "snd (add_transaction E bc tx) = Returned True")
    case False
    then have "fst (add_transaction E bc tx) = bc"
      by (auto simp: add_transaction_def Let_def split: sum.splits if_splits)
    with a AddTransaction show ?thesis by simp
  next
    case True
    then have st: "fst (add_transaction E bc tx) =
        bc\<lparr>unconfirmed_transactions := unconfirmed_transactions bc @ [tx],
           chain := map (mempool_append (unconfirmed_obj bc) tx) (chain bc),
           orphan_blocks :=
             map (\<lambda>p. (fst p, mempool_append (unconfirmed_obj bc) tx (snd p))) (orphan_blocks bc),
           pending_blocks :=
             map (\<lambda>p. (fst p, mempool_append (unconfirmed_obj bc) tx (snd p))) (pending_blocks bc),
           known_transactions := known_transactions (fst (add_transaction E bc tx))\<rparr>"
      by (auto simp: add_transaction_def Let_def split: sum.splits if_splits)
    have "state_blocks (fst (add_transaction E bc tx)) =
            mempool_append (unconfirmed_obj bc) tx ` state_blocks bc"
      by (subst st) (auto simp: state_blocks_def image_Un image_image)
    moreover have "unconfirmed_obj (fst (add_transaction E bc tx)) = unconfirmed_obj bc"
      "unconfirmed_transactions (fst (add_transaction E bc tx)) =
         unconfirmed_transactions bc @ [tx]"
      by (subst st, simp)+
    ultimately show ?thesis
      using a unfolding AddTransaction apply_operation.simps aliases_agree_def
      by (auto simp: mempool_append_def)
  qed
next
  case (MineBlock m now)
  with a show ?thesis by (simp add: mine_block_unchanged)
next
  case (AddBlock b)
  from add_block_agree [OF a as_passed_agrees] AddBlock show ?thesis by simp
next
  case (ReplaceChain c)
  show ?thesis
  proof (cases "snd (replace_chain E bc (map (as_passed bc) c)) = Returned True")
    case False
    then have "fst (replace_chain E bc (map (as_passed bc) c)) = bc"
      by (auto simp: replace_chain_def split: sum.splits if_splits)
    with a ReplaceChain show ?thesis by simp
  next
    case True
    then have "fst (replace_chain E bc (map (as_passed bc) c)) =
                 bc\<lparr>chain := map (as_passed bc) c\<rparr>"
      by (auto simp: replace_chain_def split: sum.splits if_splits)
    with a ReplaceChain show ?thesis
      unfolding aliases_agree_def
      by (auto simp: state_blocks_def as_passed_def)
  qed
qed

text \<open>
  In every state reached from a freshly constructed chain by the four operations, every
  block of the state (in the chain, the orphan set or the pending set) whose
  \<open>transactions\<close> attribute is the current mempool list holds exactly the mempool's
  transactions.
\<close>

theorem reachable_aliases_agree:
  "aliases_agree (run E fuel (Blockchain_init E now d) ops)"
proof -
  have gen: "aliases_agree (run E fuel bc ops)" if "aliases_agree bc" for bc
    using that unfolding run_def
  proof (induction ops arbitrary: bc)
    case Nil
    then show ?case by simp
  next
    case (Cons op ops)
    from Cons.IH [OF apply_operation_agree [OF Cons.prems]] show ?case by simp
  qed
  have "aliases_agree (Blockchain_init E now d)"
    by (simp add: aliases_agree_def state_blocks_def Blockchain_init_def
          create_genesis_block_def Block_init_def Let_def)
  then show ?thesis by (rule gen)
qed

theorem reachable_aliases_agree_witness:
  "chain (run demo_env 9 (Blockchain_init demo_env 5 0) shared_ops) ! 1 \<in>
     state_blocks (run demo_env 9 (Blockchain_init demo_env 5 0) shared_ops) \<and>
   transactions_obj (chain (run demo_env 9 (Blockchain_init demo_env 5 0) shared_ops) ! 1) =
     MempoolList (unconfirmed_obj (run demo_env 9 (Blockchain_init demo_env 5 0) shared_ops)) \<and>
   transactions (chain (run demo_env 9 (Blockchain_init demo_env 5 0) shared_ops) ! 1) =
     unconfirmed_transactions (run demo_env 9 (Blockchain_init demo_env 5 0) shared_ops)"
proof -
  have len: "1 < length (chain (run demo_env 9 (Blockchain_init demo_env 5 0) shared_ops))"
    by code_simp
  then have mem: "chain (run demo_env 9 (Blockchain_init demo_env 5 0) shared_ops) ! 1 \<in>
      state_blocks (run demo_env 9 (Blockchain_init demo_env 5 0) shared_ops)"
    by (simp add: state_blocks_def)
  have tag: "transactions_obj (chain (run demo_env 9 (Blockchain_init demo_env 5 0) shared_ops) ! 1) =
      MempoolList (unconfirmed_obj (run demo_env 9 (Blockchain_init demo_env 5 0) shared_ops))"
    by code_simp
  from reachable_aliases_agree [of demo_env 9 5 0 shared_ops] mem tag show ?thesis
    unfolding aliases_agree_def by blast
qed

subsection \<open>The pending set is keyed by block hash\<close>

lemma dict_set_keyed:
  assumes "\<forall>p\<in>set kv. fst p = f (snd p)" and "k = f v"
  shows "\<forall>p\<in>set (dict_set k v kv). fst p = f (snd p)"
  using assms by (induction kv) (fastforce split: if_splits)+

lemma add_block_keyed:
  assumes keyed: "\<forall>p\<in>set (pending_blocks bc). fst p = hash (snd p)"
  shows "\<forall>p\<in>set (pending_blocks (fst (add_block E n bc b))). fst p = hash (snd p)"
proof (cases "chain bc = [] \<or> previous_hash b = hash (last (chain bc))")
  case True
  from drained_subset [OF drain_frame(1) [OF True]] keyed show ?thesis by blast
next
  case False
  show ?thesis
  proof (cases n)
    case 0
    with keyed show ?thesis by (simp add: add_block.simps)
  next
    case (Suc m)
    with False keyed dict_set_keyed [OF keyed, of "hash b" b] show ?thesis
      by (simp add: add_block.simps last_block_def)
  qed
qed

lemma apply_operation_keyed:
  assumes keyed: "\<forall>p\<in>set (pending_blocks bc). fst p = hash (snd p)"
  shows "\<forall>p\<in>set (pending_blocks (apply_operation E fuel bc op)). fst p = hash (snd p)"
proof (cases op)
  case (AddTransaction tx)
  with keyed show ?thesis
    by (auto simp: add_transaction_def Let_def mempool_append_def split: sum.splits)
next
  case (MineBlock m now)
  have frame: "\<forall>p\<in>set (pending_blocks (bc\<lparr>unconfirmed_obj := g, unconfirmed_transactions := u\<rparr>)).
                 fst p = hash (snd p)" for g u
    using keyed by simp
  have step: "\<forall>p\<in>set (pending_blocks x). fst p = hash (snd p)"
    if "add_block E fuel (bc\<lparr>unconfirmed_obj := g, unconfirmed_transactions := u\<rparr>) b = (x, r)"
    for g u b x r
  proof -
    have "\<forall>p\<in>set (pending_blocks
             (fst (add_block E fuel (bc\<lparr>unconfirmed_obj := g, unconfirmed_transactions := u\<rparr>) b))).
            fst p = hash (snd p)"
      by (rule add_block_keyed [OF frame])
    with that show ?thesis by simp
  qed
  show ?thesis
    unfolding MineBlock apply_operation.simps
    using keyed
    by (auto simp: mine_block_def Let_def dest: step
             split: sum.splits prod.splits outcome.splits)
next
  case (AddBlock b)
  with add_block_keyed [OF keyed] show ?thesis by simp
next
  case (ReplaceChain c)
  with keyed show ?thesis
    by (auto simp: replace_chain_def split: sum.splits)
qed

text \<open>
  In every state reached from a freshly constructed chain by the four operations, each
  entry of the pending set has the hash attribute of its block as its key.
\<close>

theorem reachable_pending_keyed:
  "\<forall>p\<in>set (pending_blocks (run E fuel (Blockchain_init E now d) ops)). fst p = hash (snd p)"
proof -
  have gen: "\<forall>p\<in>set (pending_blocks (run E fuel bc ops)). fst p = hash (snd p)"
    if "\<forall>p\<in>set (pending_blocks bc). fst p = hash (snd p)" for bc
    using that unfolding run_def
  proof (induction ops arbitrary: bc)
    case Nil
    then show ?case by simp
  next
    case (Cons op ops)
    from Cons.IH [OF apply_operation_keyed [OF Cons.prems]] show ?case by simp
  qed
  have "\<forall>p\<in>set (pending_blocks (Blockchain_init E now d)). fst p = hash (snd p)"
    by (simp add: Blockchain_init_def create_genesis_block_def)
  then show ?thesis by (rule gen)
qed

theorem reachable_pending_keyed_witness:
  "pending_blocks fork_state \<noteq> [] \<and>
   list_all (\<lambda>p. fst p = hash (snd p)) (pending_blocks fork_state)"
proof -
  have "pending_blocks fork_state \<noteq> []"
    by (simp add: fork_state_val)
  with reachable_pending_keyed [of demo_env 9 5 4 "[AddBlock demo_fork, AddBlock demo_b1, AddBlock demo_b2]"]
  show ?thesis
    by (simp add: fork_state_def demo_chain_def list_all_iff)
qed

section \<open>Balances and the mempool\<close>

text \<open>
  C3.  The claim: \<open>Blockchain.get_balance\<close> credits \<open>amount\<close> to the recipient, debits
  \<open>amount + fee\<close> from the sender and counts a repeated transaction identity once.
  The code does neither: on a chain whose one block holds the same wallet transaction
  twice (\<open>A\<close> pays \<open>B\<close> 5 with fee 1) it returns \<open>-10\<close> for \<open>A\<close> and \<open>10\<close> for \<open>B\<close>,
  where the claim gives \<open>-6\<close> and \<open>5\<close>, the values \<open>Wallet.get_balance\<close> returns on the
  same chain.
\<close>

theorem get_balance_counts_twice_without_fee:
  "get_balance (bc\<lparr>chain := [b\<lparr>transactions := paid_twice\<rparr>]\<rparr>) ''A'' = - 10 \<and>
   get_balance (bc\<lparr>chain := [b\<lparr>transactions := paid_twice\<rparr>]\<rparr>) ''B'' = 10 \<and>
   wallet_get_balance E ''A'' (bc\<lparr>chain := [b\<lparr>transactions := paid_twice\<rparr>]\<rparr>) = Inr (- 6) \<and>
   wallet_get_balance E ''B'' (bc\<lparr>chain := [b\<lparr>transactions := paid_twice\<rparr>]\<rparr>) = Inr 5"
  by (simp add: get_balance_def wallet_get_balance_def paid_twice_def Let_def)

text \<open>
  C4.  The claim: a first \<open>add_transaction\<close> call with non-empty endpoints, a positive
  amount and a signature returns true and appends one entry.  For the \<open>Transaction\<close>
  class that blockchain.py imports and gossip.py passes in (block.py), the call raises
  \<open>AttributeError\<close> at \<open>transaction.calculate_hash()\<close> and leaves the state as it was,
  whatever the fields.
\<close>

theorem add_transaction_block_class_raises:
  "add_transaction E bc (BlockTx s r a sg ts) = (bc, Raised AttributeError)"
  by (simp add: add_transaction_def)

text \<open>
  For a transaction that has an identity hash (the wallet's class) \<open>add_transaction\<close>
  does what C4 describes: a first call with an unknown hash, non-empty endpoints, a
  positive amount and a non-empty signature returns true, appends the transaction once
  to the mempool list (and so to what every block that holds this list sees) and records
  its hash; the same call again returns false and changes nothing.
\<close>

theorem add_transaction_wallet_class:
  assumes h: "tx_calculate_hash E tx = Inr h"
    and new: "h \<notin> known_transactions bc"
    and ok: "sender tx \<noteq> []" "recipient tx \<noteq> []" "0 < amount tx"
            "signature tx \<noteq> None" "signature tx \<noteq> Some []"
  shows "add_transaction E bc tx =
           (bc\<lparr>unconfirmed_transactions := unconfirmed_transactions bc @ [tx],
               chain := map (mempool_append (unconfirmed_obj bc) tx) (chain bc),
               orphan_blocks :=
                 map (\<lambda>p. (fst p, mempool_append (unconfirmed_obj bc) tx (snd p)))
                   (orphan_blocks bc),
               pending_blocks :=
                 map (\<lambda>p. (fst p, mempool_append (unconfirmed_obj bc) tx (snd p)))
                   (pending_blocks bc),
               known_transactions := insert h (known_transactions bc)\<rparr>,
            Returned True) \<and>
         add_transaction E (fst (add_transaction E bc tx)) tx =
           (fst (add_transaction E bc tx), Returned False)"
  using assms by (simp add: add_transaction_def validate_transaction_def Let_def)

theorem add_transaction_wallet_class_witness:
  "snd (add_transaction demo_env demo_chain demo_wallet_tx) = Returned True \<and>
   length (unconfirmed_transactions (fst (add_transaction demo_env demo_chain demo_wallet_tx)))
     = length (unconfirmed_transactions demo_chain) + 1 \<and>
   snd (add_transaction demo_env (fst (add_transaction demo_env demo_chain demo_wallet_tx))
          demo_wallet_tx) = Returned False"
proof -
  obtain h where h: "tx_calculate_hash demo_env demo_wallet_tx = Inr h"
    by (simp add: demo_wallet_tx_def)
  have new: "h \<notin> known_transactions demo_chain"
    by (simp add: demo_chain_val)
  have ok: "sender demo_wallet_tx \<noteq> []" "recipient demo_wallet_tx \<noteq> []"
    "0 < amount demo_wallet_tx" "signature demo_wallet_tx \<noteq> None"
    "signature demo_wallet_tx \<noteq> Some []"
    by (simp_all add: demo_wallet_tx_def)
  from add_transaction_wallet_class [OF h new ok] show ?thesis
    by (elim conjE) simp
qed

section \<open>Merkle roots and proofs\<close>

lemma proof_loop_step:
  assumes "length nodes > 1"
  shows "proof_loop E nodes i acc =
           proof_loop E (parents E (pad_odd nodes)) (i div 2)
             (acc @ [\<lparr>step_hash = node_hash (pad_odd nodes ! (if even i then i + 1 else i - 1)),
                       position = (if even i then ''right'' else ''left'')\<rparr>])"
  using assms by (simp add: proof_loop.simps [of E nodes i acc] Let_def even_iff_mod_2_eq_zero)

lemma proof_loop_done: "\<not> length nodes > 1 \<Longrightarrow> proof_loop E nodes i acc = acc"
  by (simp add: proof_loop.simps [of E nodes i acc])

lemma proof_loop_acc: "proof_loop E nodes i acc = acc @ proof_loop E nodes i []"
proof (induction E nodes arbitrary: i acc rule: build_loop.induct)
  case (1 E nodes)
  show ?case
  proof (cases "length nodes > 1")
    case False
    then show ?thesis by (simp add: proof_loop_done)
  next
    case True
    note IH = "1.IH" [OF True]
    show ?thesis
      unfolding proof_loop_step [OF True]
      by (subst IH, subst (2) IH) simp
  qed
qed

lemma parents_nth:
  assumes "even (length xs)" and "i < length xs"
  shows "node_hash (parents E xs ! (i div 2)) =
           (if even i then hash_data E (HStr (node_hash (xs ! i) @ node_hash (xs ! (i + 1))))
            else hash_data E (HStr (node_hash (xs ! (i - 1)) @ node_hash (xs ! i))))"
  using assms
proof (induction E xs arbitrary: i rule: parents.induct)
  case (1 E a b rest)
  show ?case
  proof (cases "i < 2")
    case True
    then have "i = 0 \<or> i = 1" by auto
    then show ?thesis by auto
  next
    case False
    then obtain j where j: "i = Suc (Suc j)"
      by (metis Suc_lessI less_2_cases_iff not_less_eq old.nat.exhaust zero_less_Suc)
    with "1.prems" have "even (length rest)" "j < length rest" by simp_all
    from "1.IH" [OF this] j show ?thesis
      by (cases "even j") (auto simp: nth_Cons')
  qed
next
  case (2 E a)
  then show ?case by simp
next
  case (3 E)
  then show ?case by simp
qed

lemma pad_odd_nth: "i < length xs \<Longrightarrow> pad_odd xs ! i = xs ! i"
  by (simp add: pad_odd_def nth_append)

lemma pad_odd_idem: "pad_odd (pad_odd xs) = pad_odd xs"
  using even_length_pad_odd [of xs] by (simp add: pad_odd_def [of "pad_odd xs"])

lemma length_pad_odd_ge: "length xs \<le> length (pad_odd xs)"
  by (simp add: pad_odd_def)

lemma build_loop_pad: "length xs > 1 \<Longrightarrow> build_loop E (pad_odd xs) = build_loop E xs"
  using length_pad_odd_ge [of xs]
  by (simp add: build_loop.simps [of E xs] build_loop.simps [of E "pad_odd xs"] pad_odd_idem)

lemma proof_verifies:
  assumes "i < length nodes"
  shows "verify_steps E (node_hash (nodes ! i)) (proof_loop E nodes i []) =
           node_hash (hd (build_loop E nodes))"
  using assms
proof (induction E nodes arbitrary: i rule: build_loop.induct)
  case (1 E nodes)
  show ?case
  proof (cases "length nodes > 1")
    case False
    with "1.prems" have "i = 0" "nodes \<noteq> []" by auto
    then show ?thesis
      using False
      by (simp add: proof_loop_done build_loop.simps [of E nodes] hd_conv_nth)
  next
    case True
    let ?xs = "pad_odd nodes"
    let ?s = "\<lparr>step_hash = node_hash (?xs ! (if even i then i + 1 else i - 1)),
                position = (if even i then ''right'' else ''left'')\<rparr>"
    have ev: "even (length ?xs)" by (rule even_length_pad_odd)
    have i: "i < length ?xs" using "1.prems" length_pad_odd_ge [of nodes] by simp
    have same: "?xs ! i = nodes ! i" using "1.prems" by (rule pad_odd_nth)
    have up: "i div 2 < length (parents E ?xs)"
      using i ev by (auto simp: length_parents elim!: evenE)
    have pl: "proof_loop E nodes i [] = ?s # proof_loop E (parents E ?xs) (i div 2) []"
      using proof_loop_step [OF True, of E i "[]"]
        proof_loop_acc [of E "parents E ?xs" "i div 2" "[?s]"] by simp
    have comb: "verify_steps E (node_hash (nodes ! i)) (?s # rest) =
                  verify_steps E (node_hash (parents E ?xs ! (i div 2))) rest" for rest
      using parents_nth [OF ev i, of E] same by simp
    have "verify_steps E (node_hash (nodes ! i)) (proof_loop E nodes i []) =
            node_hash (hd (build_loop E (parents E ?xs)))"
      unfolding pl comb by (rule "1.IH" [OF True up])
    then show ?thesis
      using True by (simp add: build_loop.simps [of E nodes])
  qed
qed

lemma find_leaf_Some:
  "find_leaf xs h k = Some j \<Longrightarrow> k \<le> j \<and> j - k < length xs \<and> node_hash (xs ! (j - k)) = h"
proof (induction xs arbitrary: k)
  case Nil
  then show ?case by simp
next
  case (Cons x xs)
  show ?case
  proof (cases "node_hash x = h")
    case True
    with Cons.prems show ?thesis by simp
  next
    case False
    with Cons.prems have "find_leaf xs h (Suc k) = Some j" by simp
    from Cons.IH [OF this] show ?thesis
      by (auto simp: Suc_diff_Suc less_eq_Suc_le)
  qed
qed

lemma find_leaf_present:
  "h \<in> node_hash ` set xs \<Longrightarrow> \<exists>j. find_leaf xs h k = Some j"
  by (induction xs arbitrary: k) auto

text \<open>
  C8.  Merkle proof round-trip: for a tree built from a non-empty transaction list and
  every leaf hash present in the tree, \<open>verify_proof\<close> accepts the proof \<open>get_proof\<close>
  returns for it against the root hash.  (\<open>proof_loop_step\<close> above is the recording rule:
  the sibling is \<open>right\<close> at an even index and \<open>left\<close> at an odd one; \<open>verify_steps\<close>
  composes \<open>hash(sibling || current)\<close> for \<open>left\<close> and \<open>hash(current || sibling)\<close>
  otherwise.)
\<close>

theorem merkle_proof_roundtrip:
  assumes ne: "txs \<noteq> []"
    and present: "h \<in> node_hash ` set (leaves (MerkleTree_init E txs))"
  shows "verify_proof E h (snd (get_proof E (MerkleTree_init E txs) h))
           (get_root_hash (MerkleTree_init E txs))"
proof -
  define lv where "lv = map (\<lambda>tx. MerkleNode (hash_data E (HDict tx)) None None) txs"
  define L where "L = (if length lv > 1 then pad_odd lv else lv)"
  have lv: "lv \<noteq> []" using ne by (simp add: lv_def)
  have T: "leaves (MerkleTree_init E txs) = L"
    "root (MerkleTree_init E txs) = Some (hd (build_loop E lv))"
    using lv by (simp_all add: MerkleTree_init_def Let_def lv_def [symmetric] L_def)
  have bl: "build_loop E L = build_loop E lv"
    by (simp add: L_def build_loop_pad)
  from present obtain j where j: "find_leaf L h 0 = Some j"
    unfolding T using find_leaf_present by blast
  from find_leaf_Some [OF j] have jl: "j < length L" and jh: "node_hash (L ! j) = h"
    by simp_all
  have "snd (get_proof E (MerkleTree_init E txs) h) = proof_loop E L j []"
    by (simp add: get_proof_def T j)
  moreover have "get_root_hash (MerkleTree_init E txs) = node_hash (hd (build_loop E L))"
    by (simp add: get_root_hash_def T bl)
  ultimately show ?thesis
    using proof_verifies [OF jl, of E] jh by (simp add: verify_proof_def)
qed

theorem merkle_proof_roundtrip_witness:
  "demo_tx_dicts \<noteq> [] \<and>
   hash_data demo_env (HDict (to_dict (demo_tx ''C'' ''A'' 1)))
     \<in> node_hash ` set (leaves (MerkleTree_init demo_env demo_tx_dicts)) \<and>
   verify_proof demo_env (hash_data demo_env (HDict (to_dict (demo_tx ''C'' ''A'' 1))))
     (snd (get_proof demo_env (MerkleTree_init demo_env demo_tx_dicts)
             (hash_data demo_env (HDict (to_dict (demo_tx ''C'' ''A'' 1))))))
     (get_root_hash (MerkleTree_init demo_env demo_tx_dicts))"
proof -
  have ne: "demo_tx_dicts \<noteq> []"
    by (simp add: demo_tx_dicts_def)
  have present: "hash_data demo_env (HDict (to_dict (demo_tx ''C'' ''A'' 1)))
     \<in> node_hash ` set (leaves (MerkleTree_init demo_env demo_tx_dicts))"
    unfolding MerkleTree_init_def demo_tx_dicts_def Let_def pad_odd_def
    by (simp del: to_dict.simps)
  from merkle_proof_roundtrip [OF ne present] ne present show ?thesis
    by blast
qed

lemma parents_hashes: "map node_hash (parents E xs) = pair_hashes E (map node_hash xs)"
  by (induction E xs rule: parents.induct) simp_all

lemma pad_odd_map: "map f (pad_odd xs) = pad_odd (map f xs)"
  by (cases "xs = []") (simp_all add: pad_odd_def last_map)

lemma build_loop_hashes: "map node_hash (build_loop E xs) = merkle_loop E (map node_hash xs)"
proof (induction E xs rule: build_loop.induct)
  case (1 E nodes)
  show ?case
  proof (cases "length nodes > 1")
    case True
    from "1.IH" [OF True] True show ?thesis
      by (simp add: build_loop.simps [of E nodes] merkle_loop.simps [of E "map node_hash nodes"]
            parents_hashes pad_odd_map)
  next
    case False
    then show ?thesis
      by (simp add: build_loop.simps [of E nodes] merkle_loop.simps [of E "map node_hash nodes"])
  qed
qed

lemma build_loop_nonempty: "xs \<noteq> [] \<Longrightarrow> build_loop E xs \<noteq> []"
proof (induction E xs rule: build_loop.induct)
  case (1 E nodes)
  show ?case
  proof (cases "length nodes > 1")
    case True
    have "length (parents E (pad_odd nodes)) \<noteq> 0"
      using True length_pad_odd_ge [of nodes] by (simp add: length_parents)
    then have "parents E (pad_odd nodes) \<noteq> []" by simp
    from "1.IH" [OF True this] True show ?thesis
      by (simp add: build_loop.simps [of E nodes])
  next
    case False
    with "1.prems" show ?thesis by (simp add: build_loop.simps [of E nodes])
  qed
qed

text \<open>
  The two Merkle computations agree on every non-empty transaction list: the root a
  block stores is the root hash of the \<open>MerkleTree\<close> built over the transactions'
  dictionaries.
\<close>

theorem merkle_root_agrees:
  assumes "txs \<noteq> []"
  shows "calculate_merkle_root E txs = get_root_hash (MerkleTree_init E (map to_dict txs))"
proof -
  define lv where "lv = map (\<lambda>tx. MerkleNode (hash_data E (HDict tx)) None None) (map to_dict txs)"
  have lv: "lv \<noteq> []" using assms by (simp add: lv_def)
  have hs: "map node_hash lv = map (\<lambda>tx. hash_data E (HDict (to_dict tx))) txs"
    by (simp add: lv_def comp_def)
  have "get_root_hash (MerkleTree_init E (map to_dict txs)) = node_hash (hd (build_loop E lv))"
    unfolding get_root_hash_def MerkleTree_init_def Let_def lv_def [symmetric]
    using lv by simp
  also have "\<dots> = hd (map node_hash (build_loop E lv))"
    using build_loop_nonempty [OF lv, of E] by (simp add: hd_map)
  also have "\<dots> = hd (merkle_loop E (map (\<lambda>tx. hash_data E (HDict (to_dict tx))) txs))"
    by (simp add: build_loop_hashes hs)
  finally show ?thesis
    using assms by (simp add: calculate_merkle_root_def)
qed

theorem merkle_root_agrees_witness:
  "[demo_tx ''A'' ''B'' 5, demo_tx ''B'' ''C'' 2, demo_tx ''C'' ''A'' 1] \<noteq> [] \<and>
   calculate_merkle_root demo_env [demo_tx ''A'' ''B'' 5, demo_tx ''B'' ''C'' 2, demo_tx ''C'' ''A'' 1]
     = get_root_hash (MerkleTree_init demo_env demo_tx_dicts)"
  using merkle_root_agrees [of "[demo_tx ''A'' ''B'' 5, demo_tx ''B'' ''C'' 2, demo_tx ''C'' ''A'' 1]" demo_env]
  by (simp add: demo_tx_dicts_def del: to_dict.simps)

text \<open>
  C2.  The claim: a block's \<open>merkle_root\<close> equals the root of a \<open>MerkleTree\<close> over the
  same transactions, and for no transactions both are \<open>hash("empty_block")\<close>.  For a
  non-empty list the two computations agree (\<open>merkle_root_agrees\<close> above).  For the empty
  list \<open>Block._calculate_merkle_root\<close> hashes \<open>"empty_block"\<close> and \<open>MerkleTree\<close> hashes
  \<open>"empty_tree"\<close>; under the concrete digest the two roots differ.
\<close>

theorem empty_merkle_roots:
  "calculate_merkle_root E [] = hash_data E (HStr ''empty_block'') \<and>
   get_root_hash (MerkleTree_init E []) = hash_data E (HStr ''empty_tree'') \<and>
   calculate_merkle_root demo_env [] \<noteq> get_root_hash (MerkleTree_init demo_env [])"
proof -
  have "hash_data demo_env (HStr ''empty_block'') \<noteq> hash_data demo_env (HStr ''empty_tree'')"
    by code_simp
  then show ?thesis
    by (simp add: calculate_merkle_root_def get_root_hash_def MerkleTree_init_def)
qed

section \<open>Wallet addresses and signature checks\<close>

lemma alphabet_facts:
  "length alphabet = 58" "distinct alphabet" "alphabet ! 0 = CHR ''1''"
  by (simp_all add: alphabet_def)

lemma index_of_nth: "distinct xs \<Longrightarrow> i < length xs \<Longrightarrow> index_of xs (xs ! i) = Some i"
proof (induction xs arbitrary: i)
  case Nil
  then show ?case by simp
next
  case (Cons x xs)
  show ?case
  proof (cases i)
    case 0
    then show ?thesis by simp
  next
    case (Suc j)
    with Cons.prems have "j < length xs" "distinct xs" "xs ! j \<noteq> x" by auto
    with Cons.IH [of j] Suc show ?thesis by auto
  qed
qed

lemma index_of_alphabet: "k < 58 \<Longrightarrow> index_of alphabet (alphabet ! k) = Some k"
  by (rule index_of_nth) (simp_all add: alphabet_facts)

lemma decode_encode: "b58_decode_loop (b58_encode_loop v result) 0 = b58_decode_loop result v"
proof (induction v result rule: b58_encode_loop.induct)
  case (1 v result)
  show ?case
  proof (cases "v = 0")
    case True
    then show ?thesis by (subst b58_encode_loop.simps) simp
  next
    case False
    have "b58_decode_loop (b58_encode_loop v result) 0 =
            b58_decode_loop (alphabet ! (v mod 58) # result) (v div 58)"
      using "1.IH" [OF False] False by (simp add: b58_encode_loop.simps [of v])
    also have "\<dots> = b58_decode_loop result (v div 58 * 58 + v mod 58)"
      by (simp add: index_of_alphabet)
    finally show ?thesis by simp
  qed
qed

lemma decode_leading_ones:
  "b58_decode_loop (leading_ones bs result) 0 = b58_decode_loop result 0"
proof (induction bs arbitrary: result)
  case Nil
  show ?case by simp
next
  case (Cons b bs)
  have "index_of alphabet (alphabet ! 0) = Some 0"
    by (rule index_of_alphabet) simp
  with Cons show ?case by simp
qed

lemma from_bytes_acc_bound: "v < 256 ^ k \<Longrightarrow> from_bytes_acc v bs < 256 ^ (k + length bs)"
proof (induction bs arbitrary: v k)
  case Nil
  then show ?case by simp
next
  case (Cons b bs)
  have "unat b < 256"
    using unsigned_less [of b] by simp
  with Cons.prems have "v * 256 + unat b < 256 ^ (Suc k)"
    by (simp; linarith)
  from Cons.IH [OF this] show ?case by simp
qed

lemma from_bytes_leading_zero: "from_bytes (0 # bs) < 256 ^ length bs"
  using from_bytes_acc_bound [of 0 0 bs] by (simp add: from_bytes_def)

lemma bit_length_bound: "v < 2 ^ n \<Longrightarrow> bit_length v \<le> n"
proof (induction n arbitrary: v)
  case 0
  then show ?case by (subst bit_length.simps) simp
next
  case (Suc n)
  then have "v div 2 < 2 ^ n" by simp
  from Suc.IH [OF this] show ?case
    by (subst bit_length.simps) simp
qed

lemma length_to_bytes: "to_bytes v len = Inr bs \<Longrightarrow> length bs = len"
  by (auto simp: to_bytes_def split: if_splits)

text \<open>
  C1.  The claim: \<open>_is_valid_address\<close> accepts every address \<open>_generate_address\<close>
  derives.  The code rejects every one of them.  The address encodes 25 bytes whose
  first is the version byte \<open>0x00\<close>, so the decoded number is below \<open>256 ^ 24\<close>;
  \<open>value.to_bytes((value.bit_length() + 7) // 8, 'big')\<close> is its shortest encoding, at most
  24 bytes, and the test \<open>len(binary_address) != 25\<close> returns false.  This holds for every
  public key and every pair of hash functions, RIPEMD-160 returning 20 bytes.
\<close>

theorem generated_address_rejected:
  assumes rip: "length (ripemd160 C (sha256 C public_bytes)) = 20"
  shows "is_valid_address C (generate_address C public_bytes) = False"
proof -
  define vh where "vh = (0 :: byte) # ripemd160 C (sha256 C public_bytes)"
  define chk where "chk = take 4 (sha256 C (sha256 C vh))"
  define v where "v = from_bytes (vh @ chk)"
  have addr: "generate_address C public_bytes = leading_ones vh (b58_encode_loop v [])"
    by (simp add: generate_address_def Let_def vh_def chk_def v_def)
  have dec: "b58_decode_loop (generate_address C public_bytes) 0 = Inr v"
    unfolding addr decode_leading_ones decode_encode by simp
  have "length (ripemd160 C (sha256 C public_bytes) @ chk) \<le> 24"
    using rip by (simp add: chk_def)
  moreover have "v < 256 ^ length (ripemd160 C (sha256 C public_bytes) @ chk)"
    unfolding v_def vh_def
    using from_bytes_leading_zero [of "ripemd160 C (sha256 C public_bytes) @ chk"] by simp
  ultimately have "v < (256 :: nat) ^ 24"
    using power_increasing [of "length (ripemd160 C (sha256 C public_bytes) @ chk)" 24 "256 :: nat"]
    by simp
  then have "v < 2 ^ 192" by simp
  then have "bit_length v \<le> 192" by (rule bit_length_bound)
  then have len: "(bit_length v + 7) div 8 \<noteq> 25" by simp
  show ?thesis
  proof (cases "to_bytes v ((bit_length v + 7) div 8)")
    case (Inl e)
    then show ?thesis by (simp add: is_valid_address_def dec)
  next
    case (Inr bs)
    from length_to_bytes [OF Inr] len have "length bs \<noteq> 25" by simp
    with Inr show ?thesis by (simp add: is_valid_address_def dec)
  qed
qed

theorem generated_address_rejected_witness:
  "length (ripemd160 demo_crypto (sha256 demo_crypto [2, 3])) = 20 \<and>
   is_valid_address demo_crypto (generate_address demo_crypto [2, 3]) = False"
proof -
  have "length (ripemd160 demo_crypto (sha256 demo_crypto [2, 3])) = 20"
    by (simp add: demo_crypto_def)
  from generated_address_rejected [OF this] this show ?thesis
    by blast
qed

text \<open>
  C9.  The claim: \<open>verify_transaction\<close> never lets an exception out.  For an unsigned
  transaction (\<open>signature\<close> is \<open>None\<close>) and a public key that loads, the call raises
  \<open>TypeError\<close>: \<open>base64.b64decode(None)\<close> raises it and the handler lists only
  \<open>InvalidSignature\<close> and \<open>ValueError\<close>.
\<close>

theorem verify_transaction_unsigned_raises:
  assumes "load_pem_public_key C public_key_bytes = Inr key"
    and "signature tx = None"
  shows "verify_transaction E C tx public_key_bytes = Inl TypeError"
  using assms by (simp add: verify_transaction_def)

theorem verify_transaction_unsigned_raises_witness:
  "load_pem_public_key demo_crypto [1] = Inr (PublicKey [1]) \<and>
   signature (WalletTx ''A'' ''B'' 5 0 0 1 None None) = None \<and>
   verify_transaction demo_env demo_crypto (WalletTx ''A'' ''B'' 5 0 0 1 None None) [1] =
     Inl TypeError"
proof -
  have k: "load_pem_public_key demo_crypto [1] = Inr (PublicKey [1])"
    by (simp add: demo_crypto_def)
  have s: "signature (WalletTx ''A'' ''B'' 5 0 0 1 None None) = None"
    by simp
  from verify_transaction_unsigned_raises [OF k s] k s show ?thesis
    by blast
qed

section \<open>What mining and the wallet's balance query do on this chain\<close>

text \<open>
  \<open>mine_block\<close> never appends a block: with a non-empty mempool the call reaches
  \<open>ProofOfWork.mine\<close>, whose first log line reads \<open>block.height\<close>, and leaves with
  \<open>AttributeError\<close> and the state unchanged.
\<close>

theorem mine_block_never_mines:
  assumes "unconfirmed_transactions bc \<noteq> []" and "chain bc \<noteq> []"
  shows "mine_block E fuel now bc miner_address = (bc, Raised AttributeError)"
  using assms by (simp add: mine_block_def last_block_def mine_def block_height_def Let_def)

theorem mine_block_never_mines_witness:
  "unconfirmed_transactions (demo_chain\<lparr>unconfirmed_transactions := [demo_wallet_tx]\<rparr>) \<noteq> [] \<and>
   chain (demo_chain\<lparr>unconfirmed_transactions := [demo_wallet_tx]\<rparr>) \<noteq> [] \<and>
   mine_block demo_env 9 8 (demo_chain\<lparr>unconfirmed_transactions := [demo_wallet_tx]\<rparr>) ''M'' =
     (demo_chain\<lparr>unconfirmed_transactions := [demo_wallet_tx]\<rparr>, Raised AttributeError)"
proof -
  have u: "unconfirmed_transactions (demo_chain\<lparr>unconfirmed_transactions := [demo_wallet_tx]\<rparr>) \<noteq> []"
    by simp
  have c: "chain (demo_chain\<lparr>unconfirmed_transactions := [demo_wallet_tx]\<rparr>) \<noteq> []"
    by (simp add: demo_chain_val)
  from mine_block_never_mines [OF u c] u c show ?thesis
    by blast
qed

text \<open>
  \<open>Wallet.get_balance\<close> raises on every freshly constructed chain: the genesis
  transaction is an instance of block.py's class, which has no \<open>calculate_hash\<close>.
\<close>

theorem wallet_balance_raises_on_genesis:
  "wallet_get_balance E address (Blockchain_init E now d) = Inl AttributeError"
  by (simp add: wallet_get_balance_def Blockchain_init_def create_genesis_block_def
        Block_init_def Let_def genesis_tx_def)

end
